theory Spec2Isabelle
  imports Complex_Main "HOL-Library.Product_Lexorder" "HOL-Library.Sublist"
begin

unbundle bit_operations_syntax

section \<open>Planning utilities and flight state machine of AAE_002_3DMotionPlanning\<close>

text \<open>
  Shallow embedding of \<^verbatim>\<open>p_u.py\<close> (the planning utilities that
  \<^verbatim>\<open>motion_planning.py\<close> imports as \<^verbatim>\<open>planning_utils\<close>) and of the
  \<^verbatim>\<open>MotionPlanning\<close> class. Python floats are modelled as reals (every
  concrete input below is integer-valued, where the float arithmetic of the source is
  exact), Python ints as \<^typ>\<open>int\<close>, exceptions as values of \<open>error + 'a\<close>.
  The floating-point determinant of numpy is not modelled: it is a parameter of the
  path simplifier.
\<close>

subsection \<open>Errors\<close>

datatype error = ValueError | IndexError | KeyError | UnboundLocalError

subsection \<open>Path simplifier: \<^verbatim>\<open>point\<close>, \<^verbatim>\<open>collinearity_check\<close>, \<^verbatim>\<open>prune_path\<close>\<close>

type_synonym cell = "int \<times> int"

text \<open>\<^verbatim>\<open>point(p)\<close> is the row \<^verbatim>\<open>[p[0], p[1], 1.]\<close>.\<close>

definition point :: "cell \<Rightarrow> real \<times> real \<times> real" where
  "point p = (real_of_int (fst p), real_of_int (snd p), 1)"

text \<open>
  \<^verbatim>\<open>np.linalg.det\<close> is a routine of numpy, computed in floating point. The
  embedding makes no assumption on what it returns: the simplifier takes it as the
  parameter \<open>det\<close>, a function of the three rows of the matrix that
  \<^verbatim>\<open>np.concatenate((p1, p2, p3), 0)\<close> builds.
\<close>

type_synonym row3 = "real \<times> real \<times> real"

type_synonym linalg_det = "row3 \<Rightarrow> row3 \<Rightarrow> row3 \<Rightarrow> real"

text \<open>
  The exact determinant of the matrix with these three rows, the cofactor expansion
  along the first row. It is one possible value of the parameter, used where an input
  is evaluated; the floating-point routine agrees with it to far less than the
  tolerance on integer coordinates as small as the ones evaluated below, and need not
  on large ones.
\<close>

definition det3 :: linalg_det where
  "det3 p1 p2 p3 =
     (case p1 of (a, b, c) \<Rightarrow> case p2 of (d, e, f) \<Rightarrow> case p3 of (g, h, i) \<Rightarrow>
        a * (e * i - f * h) - b * (d * i - f * g) + c * (d * h - e * g))"

text \<open>
  \<^verbatim>\<open>collinearity_check(p1, p2, p3, epsilon=1e-6)\<close>; the path simplifier always
  calls it with the default tolerance. (The \<^verbatim>\<open>def\<close> line of the source lacks its
  closing colon; the body is modelled as it is written.)
\<close>

definition epsilon :: real where
  "epsilon = 1 / 1000000"

definition collinearity_check :: "linalg_det \<Rightarrow> row3 \<Rightarrow> row3 \<Rightarrow> row3 \<Rightarrow> bool" where
  "collinearity_check det p1 p2 p3 = (\<bar>det p1 p2 p3\<bar> < epsilon)"

text \<open>
  The \<^verbatim>\<open>while\<close> loop of \<^verbatim>\<open>prune_path\<close> on the local list
  \<^verbatim>\<open>pruned_path\<close> and the index \<^verbatim>\<open>i\<close>. \<^verbatim>\<open>list.remove(v)\<close> deletes
  the first element equal to \<^verbatim>\<open>v\<close>, which is \<^const>\<open>remove1\<close>.
\<close>

function prune_loop :: "linalg_det \<Rightarrow> cell list \<Rightarrow> nat \<Rightarrow> cell list" where
  "prune_loop det pruned_path i =
     (if int i < int (length pruned_path) - 2 then
        (if collinearity_check det (point (pruned_path ! i)) (point (pruned_path ! (i + 1)))
              (point (pruned_path ! (i + 2)))
         then prune_loop det (remove1 (pruned_path ! (i + 1)) pruned_path) i
         else prune_loop det pruned_path (i + 1))
      else pruned_path)"
  by pat_completeness auto
termination
proof (relation "measure (\<lambda>(det, pruned_path, i). 2 * length pruned_path - i)")
  show "wf (measure (\<lambda>(det :: linalg_det, pruned_path :: cell list, i). 2 * length pruned_path - i))"
    by simp
next
  fix det :: linalg_det and pruned_path :: "cell list" and i :: nat
  assume lt: "int i < int (length pruned_path) - 2"
  then have "pruned_path ! (i + 1) \<in> set pruned_path"
    by (intro nth_mem) linarith
  then have "length (remove1 (pruned_path ! (i + 1)) pruned_path) = length pruned_path - 1"
    by (simp add: length_remove1)
  with lt show "((det, remove1 (pruned_path ! (i + 1)) pruned_path, i), (det, pruned_path, i))
        \<in> measure (\<lambda>(det, pruned_path, i). 2 * length pruned_path - i)"
    by auto
next
  fix det :: linalg_det and pruned_path :: "cell list" and i :: nat
  assume "int i < int (length pruned_path) - 2"
  then show "((det, pruned_path, i + 1), (det, pruned_path, i))
        \<in> measure (\<lambda>(det, pruned_path, i). 2 * length pruned_path - i)"
    by auto
qed

declare prune_loop.simps [simp del]

text \<open>
  \<^verbatim>\<open>prune_path(path)\<close>. The argument is \<open>None\<close> for Python's \<^verbatim>\<open>None\<close>. The
  local \<^verbatim>\<open>pruned_path\<close> is bound only inside the \<^verbatim>\<open>if path is not None\<close>
  block, so the final \<^verbatim>\<open>return pruned_path\<close> raises
  \<^verbatim>\<open>UnboundLocalError\<close> when the block is skipped.
\<close>

definition prune_path :: "linalg_det \<Rightarrow> cell list option \<Rightarrow> error + cell list" where
  "prune_path det path =
     (case path of
        None \<Rightarrow> Inl UnboundLocalError
      | Some p \<Rightarrow> Inr (prune_loop det p 0))"

subsection \<open>Occupancy grid and \<^verbatim>\<open>create_grid\<close>\<close>

text \<open>
  A two-dimensional numpy array: its shape and its entries. Only the entries inside the
  shape are meaningful.
\<close>

record grid =
  shape0 :: nat
  shape1 :: nat
  cells :: "nat \<Rightarrow> nat \<Rightarrow> real"

text \<open>
  Reading \<^verbatim>\<open>grid[i, j]\<close> with integer indices: numpy counts a negative index
  from the end of its axis and raises \<^verbatim>\<open>IndexError\<close> outside \<open>[-n, n)\<close>.
\<close>

definition np_index :: "nat \<Rightarrow> int \<Rightarrow> error + nat" where
  "np_index n i =
     (if 0 \<le> i \<and> i < int n then Inr (nat i)
      else if - int n \<le> i \<and> i < 0 then Inr (nat (i + int n))
      else Inl IndexError)"

definition grid_get :: "grid \<Rightarrow> cell \<Rightarrow> error + real" where
  "grid_get g c =
     (case np_index (shape0 g) (fst c) of
        Inl e \<Rightarrow> Inl e
      | Inr i \<Rightarrow>
          (case np_index (shape1 g) (snd c) of
             Inl e \<Rightarrow> Inl e
           | Inr j \<Rightarrow> Inr (cells g i j)))"

text \<open>
  A bound of a slice \<^verbatim>\<open>a:b\<close> on an axis of length \<open>n\<close>: negative bounds count
  from the end, and both are cut to \<open>[0, n]\<close>.
\<close>

definition slice_bound :: "nat \<Rightarrow> int \<Rightarrow> int" where
  "slice_bound n i = (if i < 0 then max (i + int n) 0 else min i (int n))"

text \<open>\<^verbatim>\<open>grid[a:b, c:d] = 1\<close>\<close>

definition slice_assign :: "grid \<Rightarrow> int \<Rightarrow> int \<Rightarrow> int \<Rightarrow> int \<Rightarrow> grid" where
  "slice_assign g a b c d =
     g\<lparr>cells := (\<lambda>i j.
        if slice_bound (shape0 g) a \<le> int i \<and> int i < slice_bound (shape0 g) b
           \<and> slice_bound (shape1 g) c \<le> int j \<and> int j < slice_bound (shape1 g) d
        then 1 else cells g i j)\<rparr>"

text \<open>\<^verbatim>\<open>int(x)\<close> on a float truncates towards zero.\<close>

definition py_int :: "real \<Rightarrow> int" where
  "py_int x = (if 0 \<le> x then \<lfloor>x\<rfloor> else \<lceil>x\<rceil>)"

text \<open>\<^verbatim>\<open>np.clip(a, a_min, a_max)\<close> is \<^verbatim>\<open>minimum(a_max, maximum(a, a_min))\<close>.\<close>

definition np_clip :: "real \<Rightarrow> real \<Rightarrow> real \<Rightarrow> real" where
  "np_clip a a_min a_max = min a_max (max a a_min)"

text \<open>
  An obstacle record, a row of \<^verbatim>\<open>data\<close>:
  \<^verbatim>\<open>north, east, alt, d_north, d_east, d_alt\<close>.
\<close>

type_synonym obstacle = "real \<times> real \<times> real \<times> real \<times> real \<times> real"

text \<open>
  The body of the loop that populates the grid, for one row of \<^verbatim>\<open>data\<close>. All four
  bounds are clipped to \<^verbatim>\<open>north_size-1\<close>, and the fourth is computed from
  \<^verbatim>\<open>east - d_east + safety_distance\<close>, as in the source.
\<close>

definition render :: "real \<Rightarrow> real \<Rightarrow> real \<Rightarrow> real \<Rightarrow> int \<Rightarrow> obstacle \<Rightarrow> grid \<Rightarrow> grid" where
  "render drone_altitude safety_distance north_min east_min north_size row g =
     (case row of (north, east, alt, d_north, d_east, d_alt) \<Rightarrow>
        if alt + d_alt + safety_distance > drone_altitude then
          (let o0 = py_int (np_clip (north - d_north - safety_distance - north_min) 0
                       (real_of_int (north_size - 1)));
               o1 = py_int (np_clip (north + d_north + safety_distance - north_min) 0
                       (real_of_int (north_size - 1)));
               o2 = py_int (np_clip (east - d_east - safety_distance - east_min) 0
                       (real_of_int (north_size - 1)));
               o3 = py_int (np_clip (east - d_east + safety_distance - east_min) 0
                       (real_of_int (north_size - 1)))
           in slice_assign g o0 (o1 + 1) o2 (o3 + 1))
        else g)"

text \<open>
  \<^verbatim>\<open>create_grid(data, drone_altitude, safety_distance)\<close>. \<^verbatim>\<open>np.min\<close> and
  \<^verbatim>\<open>np.max\<close> of an empty column raise \<^verbatim>\<open>ValueError\<close>, and so does
  \<^verbatim>\<open>np.zeros\<close> with a negative dimension.
\<close>

definition create_grid :: "obstacle list \<Rightarrow> real \<Rightarrow> real \<Rightarrow> error + (grid \<times> int \<times> int)" where
  "create_grid data drone_altitude safety_distance =
     (if data = [] then Inl ValueError
      else
        (let north_min = real_of_int \<lfloor>Min (set (map (\<lambda>(north, east, alt, d_north, d_east, d_alt). north - d_north) data))\<rfloor>;
             north_max = real_of_int \<lceil>Max (set (map (\<lambda>(north, east, alt, d_north, d_east, d_alt). north + d_north) data))\<rceil>;
             east_min = real_of_int \<lfloor>Min (set (map (\<lambda>(north, east, alt, d_north, d_east, d_alt). east - d_east) data))\<rfloor>;
             east_max = real_of_int \<lceil>Max (set (map (\<lambda>(north, east, alt, d_north, d_east, d_alt). east + d_east) data))\<rceil>;
             north_size = py_int (real_of_int \<lceil>north_max - north_min\<rceil>);
             east_size = py_int (real_of_int \<lceil>east_max - east_min\<rceil>)
         in if north_size < 0 \<or> east_size < 0 then Inl ValueError
            else Inr (fold (render drone_altitude safety_distance north_min east_min north_size) data
                        \<lparr>shape0 = nat north_size, shape1 = nat east_size, cells = (\<lambda>i j. 0)\<rparr>,
                      py_int north_min, py_int east_min)))"

subsection \<open>Search engine: \<^verbatim>\<open>Action\<close>, \<^verbatim>\<open>valid_actions\<close>, \<^verbatim>\<open>a_star\<close>\<close>

datatype Action = WEST | EAST | NORTH | SOUTH

fun delta :: "Action \<Rightarrow> int \<times> int" where
  "delta WEST = (0, -1)"
| "delta EAST = (0, 1)"
| "delta NORTH = (-1, 0)"
| "delta SOUTH = (1, 0)"

fun cost :: "Action \<Rightarrow> real" where
  "cost WEST = 1"
| "cost EAST = 1"
| "cost NORTH = 1"
| "cost SOUTH = 1"

text \<open>
  One test \<^verbatim>\<open>off or grid[c] == 1\<close> of \<^verbatim>\<open>valid_actions\<close>: Python's
  \<^verbatim>\<open>or\<close> does not read the grid when the first operand holds.
\<close>

definition blocked :: "grid \<Rightarrow> bool \<Rightarrow> cell \<Rightarrow> error + bool" where
  "blocked g off c =
     (if off then Inr True
      else (case grid_get g c of Inl e \<Rightarrow> Inl e | Inr v \<Rightarrow> Inr (v = 1)))"

text \<open>\<^verbatim>\<open>if b: valid_actions.remove(a)\<close>\<close>

definition drop_if :: "bool \<Rightarrow> Action \<Rightarrow> Action list \<Rightarrow> Action list" where
  "drop_if b a actions = (if b then remove1 a actions else actions)"

text \<open>
  \<^verbatim>\<open>valid_actions(grid, current_node)\<close>: \<^verbatim>\<open>list(Action)\<close> lists the members
  in the order of their definition, and each test that holds removes one of them. A
  test that raises ends the call, so the removals are collected after the four tests.
\<close>

definition valid_actions :: "grid \<Rightarrow> cell \<Rightarrow> error + Action list" where
  "valid_actions g current_node =
     (let n = int (shape0 g) - 1; m = int (shape1 g) - 1;
          x = fst current_node; y = snd current_node
      in case blocked g (x - 1 < 0) (x - 1, y) of
           Inl e \<Rightarrow> Inl e
         | Inr b_north \<Rightarrow>
        (case blocked g (x + 1 > n) (x + 1, y) of
           Inl e \<Rightarrow> Inl e
         | Inr b_south \<Rightarrow>
        (case blocked g (y - 1 < 0) (x, y - 1) of
           Inl e \<Rightarrow> Inl e
         | Inr b_west \<Rightarrow>
        (case blocked g (y + 1 > m) (x, y + 1) of
           Inl e \<Rightarrow> Inl e
         | Inr b_east \<Rightarrow>
             Inr (drop_if b_east EAST (drop_if b_west WEST (drop_if b_south SOUTH
                    (drop_if b_north NORTH [WEST, EAST, NORTH, SOUTH]))))))))"

text \<open>\<^verbatim>\<open>heuristic(position, goal_position)\<close>: the Euclidean norm of the difference.\<close>

definition heuristic :: "cell \<Rightarrow> cell \<Rightarrow> real" where
  "heuristic position goal_position =
     sqrt ((real_of_int (fst position - fst goal_position))\<^sup>2
           + (real_of_int (snd position - snd goal_position))\<^sup>2)"

text \<open>
  The frontier is a \<^verbatim>\<open>queue.PriorityQueue\<close> of tuples
  \<^verbatim>\<open>(queue_cost, node)\<close>. \<^verbatim>\<open>put\<close> adds an entry; \<^verbatim>\<open>get\<close> removes and
  returns the least entry in Python's order on tuples, which compares the first
  components and, when they are equal, the nodes (themselves tuples, compared the same
  way). The model keeps the entries in the order of their insertion.
\<close>

type_synonym frontier = "(real \<times> cell) list"

definition queue_put :: "frontier \<Rightarrow> real \<times> cell \<Rightarrow> frontier" where
  "queue_put q item = q @ [item]"

definition queue_get :: "frontier \<Rightarrow> (real \<times> cell) \<times> frontier" where
  "queue_get q = (let item = Min (set q) in (item, remove1 item q))"

text \<open>
  \<^verbatim>\<open>visited = set(start)\<close> builds the set of the elements of the tuple
  \<^verbatim>\<open>start\<close>, that is of its two coordinates, not the set holding the cell; the
  nodes added later are cells. An element of \<^verbatim>\<open>visited\<close> is therefore a number
  or a cell, and no number equals a cell.
\<close>

datatype visited_elem = Coord int | Node cell

record search_state =
  queue :: frontier
  visited :: "visited_elem set"
  branch :: "cell \<rightharpoonup> (real \<times> cell \<times> Action)"
  found :: bool

text \<open>The \<^verbatim>\<open>for action in valid_actions(grid, current_node)\<close> loop.\<close>

fun expand :: "(cell \<Rightarrow> cell \<Rightarrow> real) \<Rightarrow> cell \<Rightarrow> cell \<Rightarrow> real \<Rightarrow> Action list \<Rightarrow> search_state \<Rightarrow> search_state" where
  "expand h goal current_node current_cost [] st = st"
| "expand h goal current_node current_cost (action # actions) st =
     (let da = delta action;
          next_node = (fst current_node + fst da, snd current_node + snd da);
          branch_cost = current_cost + cost action;
          queue_cost = branch_cost + h next_node goal
      in if Node next_node \<notin> visited st then
           expand h goal current_node current_cost actions
             (st\<lparr>visited := insert (Node next_node) (visited st),
                 branch := (branch st)(next_node \<mapsto> (branch_cost, current_node, action)),
                 queue := queue_put (queue st) (queue_cost, next_node)\<rparr>)
         else expand h goal current_node current_cost actions st)"

text \<open>
  One pass through the body of the \<^verbatim>\<open>while\<close> loop, on a non-empty queue. The
  result is the new state and whether the loop was left by \<^verbatim>\<open>break\<close>.
\<close>

definition a_star_iter :: "grid \<Rightarrow> (cell \<Rightarrow> cell \<Rightarrow> real) \<Rightarrow> cell \<Rightarrow> cell \<Rightarrow> search_state \<Rightarrow> error + (bool \<times> search_state)" where
  "a_star_iter g h start goal st =
     (let (item, q) = queue_get (queue st);
          current_node = snd item
      in case (if current_node = start then Inr 0
               else (case branch st current_node of
                       None \<Rightarrow> Inl KeyError
                     | Some entry \<Rightarrow> Inr (fst entry))) of
           Inl e \<Rightarrow> Inl e
         | Inr current_cost \<Rightarrow>
             if current_node = goal then Inr (True, st\<lparr>queue := q, found := True\<rparr>)
             else (case valid_actions g current_node of
                     Inl e \<Rightarrow> Inl e
                   | Inr actions \<Rightarrow>
                       Inr (False, expand h goal current_node current_cost actions (st\<lparr>queue := q\<rparr>))))"


text \<open>
  The \<^verbatim>\<open>while not queue.empty()\<close> loop ends: a node is put on the queue only
  when it is new to \<^verbatim>\<open>visited\<close>, and only indices that numpy accepts are ever
  reached. The measure counts twice the accepted cells not yet visited, plus the length
  of the queue.
\<close>

definition box :: "grid \<Rightarrow> visited_elem set" where
  "box g = Node ` ({- int (shape0 g) ..< int (shape0 g)} \<times> {- int (shape1 g) ..< int (shape1 g)})"

definition search_measure :: "grid \<Rightarrow> search_state \<Rightarrow> nat" where
  "search_measure g st = 2 * card (box g - visited st) + length (queue st)"

lemma finite_box: "finite (box g)"
  by (simp add: box_def)

lemma grid_get_in_box: "grid_get g c = Inr v \<Longrightarrow> Node c \<in> box g"
  by (cases c) (auto simp: grid_get_def np_index_def box_def split: sum.splits if_splits)

lemma blocked_False_in_box: "blocked g off c = Inr False \<Longrightarrow> Node c \<in> box g"
  by (auto simp: blocked_def split: if_splits sum.splits dest: grid_get_in_box)

lemma valid_actions_in_box:
  assumes "valid_actions g c = Inr actions" and "a \<in> set actions"
  shows "Node (fst c + fst (delta a), snd c + snd (delta a)) \<in> box g"
  using assms
  by (cases a) (auto simp: valid_actions_def Let_def drop_if_def split: sum.splits if_splits
       dest!: blocked_False_in_box)

lemma expand_measure:
  "\<forall>a \<in> set actions. Node (fst c + fst (delta a), snd c + snd (delta a)) \<in> box g \<Longrightarrow>
   search_measure g (expand h goal c cc actions st) \<le> search_measure g st"
proof (induction actions arbitrary: st)
  case Nil
  then show ?case by simp
next
  case (Cons a actions)
  let ?n = "(fst c + fst (delta a), snd c + snd (delta a))"
  show ?case
  proof (cases "Node ?n \<in> visited st")
    case True
    then show ?thesis using Cons by (simp add: Let_def)
  next
    case False
    let ?st = "st\<lparr>visited := insert (Node ?n) (visited st),
                 branch := (branch st)(?n \<mapsto> (cc + cost a, c, a)),
                 queue := queue_put (queue st) (cc + cost a + h ?n goal, ?n)\<rparr>"
    have inb: "Node ?n \<in> box g - visited st" using Cons.prems False by simp
    have "box g - insert (Node ?n) (visited st) = (box g - visited st) - {Node ?n}" by auto
    then have "card (box g - insert (Node ?n) (visited st)) = card (box g - visited st) - 1"
      using inb by (simp add: finite_box)
    moreover have "card (box g - visited st) > 0"
      using inb finite_box[of g] by (metis card_gt_0_iff empty_iff finite_Diff)
    ultimately have "search_measure g ?st \<le> search_measure g st"
      by (simp add: search_measure_def queue_put_def)
    moreover have "search_measure g (expand h goal c cc actions ?st) \<le> search_measure g ?st"
      using Cons by simp
    ultimately show ?thesis using False by (simp add: Let_def)
  qed
qed

lemma queue_get_length:
  "q \<noteq> [] \<Longrightarrow> queue_get q = (item, q') \<Longrightarrow> length q' = length q - 1 \<and> item \<in> set q"
  by (auto simp: queue_get_def Let_def length_remove1 Min_in dest: sym)

lemma a_star_iter_measure:
  assumes "queue st \<noteq> []" and "a_star_iter g h start goal st = Inr (False, st')"
  shows "search_measure g st' < search_measure g st"
proof -
  obtain item q where qg: "queue_get (queue st) = (item, q)" by (cases "queue_get (queue st)")
  with assms(1) have len: "length q = length (queue st) - 1" using queue_get_length by blast
  from assms(2) qg obtain cc actions where
    va: "valid_actions g (snd item) = Inr actions" and
    st': "st' = expand h goal (snd item) cc actions (st\<lparr>queue := q\<rparr>)"
    by (auto simp: a_star_iter_def Let_def split: sum.splits if_splits option.splits)
  have "search_measure g st' \<le> search_measure g (st\<lparr>queue := q\<rparr>)"
    unfolding st' using valid_actions_in_box[OF va] by (intro expand_measure) blast
  also have "\<dots> < search_measure g st"
    using len assms(1) by (simp add: search_measure_def)
  finally show ?thesis .
qed

text \<open>The \<^verbatim>\<open>while not queue.empty()\<close> loop.\<close>

function a_star_loop :: "grid \<Rightarrow> (cell \<Rightarrow> cell \<Rightarrow> real) \<Rightarrow> cell \<Rightarrow> cell \<Rightarrow> search_state \<Rightarrow> error + search_state" where
  "a_star_loop g h start goal st =
     (if queue st = [] then Inr st
      else (case a_star_iter g h start goal st of
              Inl e \<Rightarrow> Inl e
            | Inr (brk, st') \<Rightarrow> if brk then Inr st' else a_star_loop g h start goal st'))"
  by pat_completeness auto
termination
  by (relation "measure (\<lambda>(g, h, start, goal, st). search_measure g st)")
     (auto dest: a_star_iter_measure)

declare a_star_loop.simps [simp del]

text \<open>
  Retracing the steps: the loop \<^verbatim>\<open>while branch[n][1] != start\<close> follows the
  recorded predecessors. On an arbitrary dictionary it need not end, so the result is an
  option and \<open>None\<close> stands for a loop that runs forever. A missing key raises
  \<^verbatim>\<open>KeyError\<close>.
\<close>

partial_function (option) retrace :: "(cell \<rightharpoonup> (real \<times> cell \<times> Action)) \<Rightarrow> cell \<Rightarrow> cell \<Rightarrow> cell list \<Rightarrow> (error + cell list) option" where
  "retrace br start n path =
     (case br n of
        None \<Rightarrow> Some (Inl KeyError)
      | Some entry \<Rightarrow>
          if fst (snd entry) \<noteq> start
          then retrace br start (fst (snd entry)) (path @ [fst (snd entry)])
          else Some (Inr (path @ [fst (snd entry)])))"

text \<open>
  The locals of \<^verbatim>\<open>a_star\<close> before the loop: the queue holds
  \<^verbatim>\<open>(0, start)\<close>, \<^verbatim>\<open>visited\<close> the two coordinates of \<^verbatim>\<open>start\<close>, and
  \<^verbatim>\<open>branch\<close> is empty.
\<close>

definition initial_state :: "cell \<Rightarrow> search_state" where
  "initial_state start =
     \<lparr>queue = queue_put [] (0, start),
      visited = {Coord (fst start), Coord (snd start)},
      branch = Map.empty, found = False\<rparr>"

text \<open>
  \<^verbatim>\<open>a_star(grid, h, start, goal)\<close>. When the goal was found, \<^verbatim>\<open>branch[n][0]\<close>
  is read first (a \<^verbatim>\<open>KeyError\<close> when the goal has no entry), then the path is
  retraced and returned reversed. Otherwise the function prints a message and returns
  the empty path and the initial \<^verbatim>\<open>path_cost = 0\<close>.
\<close>

definition a_star :: "grid \<Rightarrow> (cell \<Rightarrow> cell \<Rightarrow> real) \<Rightarrow> cell \<Rightarrow> cell \<Rightarrow> (error + (cell list \<times> real)) option" where
  "a_star g h start goal =
     (case a_star_loop g h start goal (initial_state start) of
        Inl e \<Rightarrow> Some (Inl e)
      | Inr st \<Rightarrow>
          if found st then
            (case branch st goal of
               None \<Rightarrow> Some (Inl KeyError)
             | Some entry \<Rightarrow>
                 (case retrace (branch st) start goal [goal] of
                    None \<Rightarrow> None
                  | Some (Inl e) \<Rightarrow> Some (Inl e)
                  | Some (Inr path) \<Rightarrow> Some (Inr (rev path, fst entry))))
          else Some (Inr ([], 0)))"

subsection \<open>Cells, moves and reachability\<close>

text \<open>
  A cell lies in the grid when both indices are within the shape; it is free when it
  lies in the grid and its entry is not 1. A unit move changes a cell by the delta of
  one of the four actions.
\<close>

definition in_grid :: "grid \<Rightarrow> cell \<Rightarrow> bool" where
  "in_grid g c = (0 \<le> fst c \<and> fst c < int (shape0 g) \<and> 0 \<le> snd c \<and> snd c < int (shape1 g))"

definition free_cell :: "grid \<Rightarrow> cell \<Rightarrow> bool" where
  "free_cell g c = (in_grid g c \<and> cells g (nat (fst c)) (nat (snd c)) \<noteq> 1)"

definition move :: "cell \<Rightarrow> Action \<Rightarrow> cell" where
  "move c a = (fst c + fst (delta a), snd c + snd (delta a))"

definition unit_move :: "cell \<Rightarrow> cell \<Rightarrow> bool" where
  "unit_move c c' = (c' = move c WEST \<or> c' = move c EAST \<or> c' = move c NORTH \<or> c' = move c SOUTH)"

text \<open>
  The cells that a sequence of unit moves, each into a free cell, connects to
  \<open>start\<close>.
\<close>

inductive reachable :: "grid \<Rightarrow> cell \<Rightarrow> cell \<Rightarrow> bool" for g :: grid and start :: cell where
  reachable_start: "reachable g start start"
| reachable_step: "reachable g start c \<Longrightarrow> unit_move c c' \<Longrightarrow> free_cell g c' \<Longrightarrow> reachable g start c'"

subsection \<open>Flight state machine: \<^verbatim>\<open>MotionPlanning\<close>\<close>

datatype States = MANUAL | ARMING | TAKEOFF | WAYPOINT | LANDING | DISARMING | PLANNING

text \<open>
  The requests that the class sends through the vehicle interface of the
  \<^verbatim>\<open>Drone\<close> base class and through the connection. The base class is not part
  of the repository; each request is recorded in the order in which it is issued.
\<close>

datatype command =
    Arm
  | TakeControl
  | Takeoff real
  | CmdPosition real real real real
  | Land
  | Disarm
  | ReleaseControl
  | Stop
  | SetHomePosition real real real
  | SendWaypoints "int list list"

type_synonym vec3 = "real \<times> real \<times> real"

text \<open>
  The attributes of a \<^verbatim>\<open>MotionPlanning\<close> object. \<^verbatim>\<open>armed\<close>,
  \<^verbatim>\<open>guided\<close>, the positions, the velocity and \<^verbatim>\<open>_altitude\<close> are the
  telemetry of the base class; \<^verbatim>\<open>armed\<close> and \<^verbatim>\<open>guided\<close> are Python
  booleans.
\<close>

record drone =
  flight_state :: States
  target_position :: "real list"
  waypoints :: "int list list"
  in_mission :: bool
  armed :: bool
  guided :: bool
  local_position :: vec3
  local_velocity :: vec3
  global_position :: vec3
  global_home :: vec3
  altitude :: real
  commands :: "command list"

text \<open>
  What \<^verbatim>\<open>plan_path\<close> reads from outside the object: the two numbers of the
  first line of \<^verbatim>\<open>colliders.csv\<close>, the obstacle rows of that file (the lines
  after the two that \<^verbatim>\<open>skiprows=2\<close> skips), the projection
  \<^verbatim>\<open>global_to_local\<close> of \<^verbatim>\<open>udacidrone.frame_utils\<close>, and the determinant
  routine of numpy.
\<close>

record environment =
  lat0 :: real
  lon0 :: real
  colliders :: "obstacle list"
  global_to_local :: "vec3 \<Rightarrow> vec3 \<Rightarrow> vec3"
  np_linalg_det :: linalg_det

text \<open>
  \<^verbatim>\<open>create_grid\<close> on the result of \<^verbatim>\<open>np.loadtxt\<close>. \<^verbatim>\<open>np.loadtxt\<close>
  returns a two-dimensional array only when the file has at least two obstacle rows;
  for a single row it returns the one-dimensional array of its six numbers, and for no
  row an empty one-dimensional array. On a one-dimensional array the first statement
  of \<^verbatim>\<open>create_grid\<close> raises \<^verbatim>\<open>IndexError\<close> at \<^verbatim>\<open>data[:,0]\<close>.
\<close>

definition create_grid_loadtxt :: "obstacle list \<Rightarrow> real \<Rightarrow> real \<Rightarrow> error + (grid \<times> int \<times> int)" where
  "create_grid_loadtxt file_rows drone_altitude safety_distance =
     (if length file_rows < 2 then Inl IndexError
      else create_grid file_rows drone_altitude safety_distance)"

definition arming_transition :: "drone \<Rightarrow> drone" where
  "arming_transition d = d\<lparr>flight_state := ARMING, commands := commands d @ [Arm, TakeControl]\<rparr>"

definition takeoff_transition :: "drone \<Rightarrow> error + drone" where
  "takeoff_transition d =
     (if length (target_position d) \<le> 2 then Inl IndexError
      else Inr (d\<lparr>flight_state := TAKEOFF,
                  commands := commands d @ [Takeoff (target_position d ! 2)]\<rparr>))"

text \<open>
  \<^verbatim>\<open>waypoint_transition\<close>: \<^verbatim>\<open>self.waypoints.pop(0)\<close> raises
  \<^verbatim>\<open>IndexError\<close> on an empty list, and so do the four reads of the popped
  waypoint when it is shorter than four.
\<close>

definition waypoint_transition :: "drone \<Rightarrow> error + drone" where
  "waypoint_transition d =
     (case waypoints d of
        [] \<Rightarrow> Inl IndexError
      | w # ws \<Rightarrow>
          if length w < 4 then Inl IndexError
          else Inr (d\<lparr>flight_state := WAYPOINT,
                      target_position := map real_of_int w,
                      waypoints := ws,
                      commands := commands d @
                        [CmdPosition (real_of_int (w ! 0)) (real_of_int (w ! 1))
                           (real_of_int (w ! 2)) (real_of_int (w ! 3))]\<rparr>))"

definition landing_transition :: "drone \<Rightarrow> drone" where
  "landing_transition d = d\<lparr>flight_state := LANDING, commands := commands d @ [Land]\<rparr>"

definition disarming_transition :: "drone \<Rightarrow> drone" where
  "disarming_transition d =
     d\<lparr>flight_state := DISARMING, commands := commands d @ [Disarm, ReleaseControl]\<rparr>"

definition manual_transition :: "drone \<Rightarrow> drone" where
  "manual_transition d =
     d\<lparr>flight_state := MANUAL, commands := commands d @ [Stop], in_mission := False\<rparr>"

text \<open>\<^verbatim>\<open>send_waypoints\<close> writes the packed waypoint list to the connection.\<close>

definition send_waypoints :: "drone \<Rightarrow> drone" where
  "send_waypoints d = d\<lparr>commands := commands d @ [SendWaypoints (waypoints d)]\<rparr>"

text \<open>
  \<^verbatim>\<open>plan_path\<close>, with \<^verbatim>\<open>TARGET_ALTITUDE = 5\<close> and
  \<^verbatim>\<open>SAFETY_DISTANCE = 5\<close>. The result is \<open>None\<close> only if the retracing loop
  of \<^verbatim>\<open>a_star\<close> does not end.
\<close>

definition TARGET_ALTITUDE :: int where
  "TARGET_ALTITUDE = 5"

definition SAFETY_DISTANCE :: int where
  "SAFETY_DISTANCE = 5"

text \<open>
  \<^verbatim>\<open>(int(local[0]) - north_offset, int(local[1]) - east_offset)\<close>, the
  expression of both \<^verbatim>\<open>grid_start\<close> and \<^verbatim>\<open>grid_goal\<close>.
\<close>

definition grid_cell :: "vec3 \<Rightarrow> int \<Rightarrow> int \<Rightarrow> cell" where
  "grid_cell local north_offset east_offset =
     (py_int (fst local) - north_offset, py_int (fst (snd local)) - east_offset)"

definition plan_path :: "environment \<Rightarrow> drone \<Rightarrow> (error + drone) option" where
  "plan_path env d =
     (let d1 = d\<lparr>flight_state := PLANNING\<rparr> in
      if length (target_position d1) \<le> 2 then Some (Inl IndexError)
      else
        (let d2 = d1\<lparr>target_position := (target_position d1)[2 := real_of_int TARGET_ALTITUDE]\<rparr>;
             d3 = d2\<lparr>commands := commands d2 @ [SetHomePosition (lon0 env) (lat0 env) 0]\<rparr>;
             global_pos = global_position d3;
             local_pos = global_to_local env global_pos (global_home d3)
         in case create_grid_loadtxt (colliders env) (real_of_int TARGET_ALTITUDE)
                   (real_of_int SAFETY_DISTANCE) of
              Inl e \<Rightarrow> Some (Inl e)
            | Inr (grid, north_offset, east_offset) \<Rightarrow>
                (let start = grid_cell local_pos north_offset east_offset;
                     global_goal = (- 122396362 / 1000000, 37795049 / 1000000, altitude d3);
                     local_goal = global_to_local env global_goal (global_home d3);
                     goal = grid_cell local_goal north_offset east_offset
                 in case a_star grid heuristic start goal of
                      None \<Rightarrow> None
                    | Some (Inl e) \<Rightarrow> Some (Inl e)
                    | Some (Inr (path, path_cost)) \<Rightarrow>
                        (case prune_path (np_linalg_det env) (Some path) of
                           Inl e \<Rightarrow> Some (Inl e)
                         | Inr pruned \<Rightarrow>
                             Some (Inr (send_waypoints
                               (d3\<lparr>waypoints :=
                                  map (\<lambda>p. [fst p + north_offset, snd p + east_offset,
                                              TARGET_ALTITUDE, 0]) pruned\<rparr>)))))))"

text \<open>
  \<^verbatim>\<open>state_callback\<close>. In the \<^verbatim>\<open>DISARMING\<close> branch the test is
  \<^verbatim>\<open>~self.armed & ~self.guided\<close>: on Python booleans \<^verbatim>\<open>~\<close> is the bitwise
  complement of the integers 0 and 1 and \<^verbatim>\<open>&\<close> the bitwise conjunction, and the
  \<^verbatim>\<open>if\<close> takes any integer other than 0 as true.
\<close>

definition state_callback :: "environment \<Rightarrow> drone \<Rightarrow> (error + drone) option" where
  "state_callback env d =
     (if in_mission d then
        (case flight_state d of
           MANUAL \<Rightarrow> Some (Inr (arming_transition d))
         | ARMING \<Rightarrow> if armed d then plan_path env d else Some (Inr d)
         | PLANNING \<Rightarrow> Some (takeoff_transition d)
         | DISARMING \<Rightarrow>
             if (NOT (of_bool (armed d)) AND NOT (of_bool (guided d)) :: int) \<noteq> 0
             then Some (Inr (manual_transition d))
             else Some (Inr d)
         | _ \<Rightarrow> Some (Inr d))
      else Some (Inr d))"

text \<open>\<^verbatim>\<open>np.linalg.norm\<close> of a vector of two components.\<close>

definition norm2 :: "real \<Rightarrow> real \<Rightarrow> real" where
  "norm2 a b = sqrt (a\<^sup>2 + b\<^sup>2)"

definition local_position_callback :: "drone \<Rightarrow> error + drone" where
  "local_position_callback d =
     (case local_position d of (north, east, down) \<Rightarrow>
        if flight_state d = TAKEOFF then
          (if length (target_position d) \<le> 2 then Inl IndexError
           else if - 1 * down > 95 / 100 * (target_position d ! 2)
                then waypoint_transition d else Inr d)
        else if flight_state d = WAYPOINT then
          (if length (target_position d) < 2 then Inl ValueError
           else if norm2 (target_position d ! 0 - north) (target_position d ! 1 - east) < 1
                then (if length (waypoints d) > 0 then waypoint_transition d
                      else (case local_velocity d of (vn, ve, vd) \<Rightarrow>
                              if norm2 vn ve < 1 then Inr (landing_transition d) else Inr d))
                else Inr d)
        else Inr d)"

definition velocity_callback :: "drone \<Rightarrow> drone" where
  "velocity_callback d =
     (if flight_state d = LANDING then
        (if snd (snd (global_position d)) - snd (snd (global_home d)) < 1 / 10 then
           (if \<bar>snd (snd (local_position d))\<bar> < 1 / 100 then disarming_transition d else d)
         else d)
      else d)"

subsection \<open>Notions used in the statements and proofs\<close>

text \<open>
  The rendering rule in the words of the specification: an obstacle whose vertical
  extent plus the safety distance exceeds the operating altitude covers the cells of
  the north range clipped to the grid height and of the east range
  \<open>[center_east - half_extent_east - safety_distance - east_min,
    center_east + half_extent_east + safety_distance - east_min]\<close> clipped to the grid
  width.
\<close>

definition spec_covers :: "real \<Rightarrow> real \<Rightarrow> real \<Rightarrow> real \<Rightarrow> int \<Rightarrow> int \<Rightarrow> obstacle \<Rightarrow> nat \<times> nat \<Rightarrow> bool" where
  "spec_covers operating_altitude safety_distance north_min east_min grid_height grid_width ob c =
     (case ob of (center_north, center_east, center_alt, half_extent_north, half_extent_east, half_extent_alt) \<Rightarrow>
        center_alt + half_extent_alt + safety_distance > operating_altitude
        \<and> py_int (np_clip (center_north - half_extent_north - safety_distance - north_min) 0
                    (real_of_int (grid_height - 1))) \<le> int (fst c)
        \<and> int (fst c) \<le> py_int (np_clip (center_north + half_extent_north + safety_distance - north_min) 0
                    (real_of_int (grid_height - 1)))
        \<and> py_int (np_clip (center_east - half_extent_east - safety_distance - east_min) 0
                    (real_of_int (grid_width - 1))) \<le> int (snd c)
        \<and> int (snd c) \<le> py_int (np_clip (center_east + half_extent_east + safety_distance - east_min) 0
                    (real_of_int (grid_width - 1))))"

text \<open>
  The collinearity test on cells, the exact determinant of three cells as an integer,
  and the condition that the determinant routine falls below the tolerance exactly on
  the triples of a set of cells whose exact determinant is 0.
\<close>

definition collinear :: "linalg_det \<Rightarrow> cell \<Rightarrow> cell \<Rightarrow> cell \<Rightarrow> bool" where
  "collinear det a b c = collinearity_check det (point a) (point b) (point c)"

definition det_decides :: "linalg_det \<Rightarrow> cell set \<Rightarrow> bool" where
  "det_decides det S =
     (\<forall>a \<in> S. \<forall>b \<in> S. \<forall>c \<in> S.
        (\<bar>det (point a) (point b) (point c)\<bar> < epsilon)
          = (det3 (point a) (point b) (point c) = 0))"

definition cross :: "cell \<Rightarrow> cell \<Rightarrow> cell \<Rightarrow> int" where
  "cross a b c = fst a * (snd b - snd c) - snd a * (fst b - fst c) + (fst b * snd c - snd b * fst c)"

definition straight_at :: "linalg_det \<Rightarrow> cell list \<Rightarrow> nat \<Rightarrow> bool" where
  "straight_at det xs k = collinear det (xs ! k) (xs ! (k + 1)) (xs ! (k + 2))"

text \<open>One new node of the \<^verbatim>\<open>for\<close> loop, and the invariant of the frontier.\<close>

definition push :: "(cell \<Rightarrow> cell \<Rightarrow> real) \<Rightarrow> cell \<Rightarrow> cell \<Rightarrow> real \<Rightarrow> Action \<Rightarrow> search_state \<Rightarrow> search_state" where
  "push h goal c cc a st =
     st\<lparr>visited := insert (Node (move c a)) (visited st),
        branch := (branch st)(move c a \<mapsto> (cc + cost a, c, a)),
        queue := queue_put (queue st) (cc + cost a + h (move c a) goal, move c a)\<rparr>"

definition frontier_ok :: "grid \<Rightarrow> cell \<Rightarrow> search_state \<Rightarrow> bool" where
  "frontier_ok g start st =
     (\<forall>item \<in> set (queue st). in_grid g (snd item) \<and> reachable g start (snd item)
         \<and> (snd item = start \<or> snd item \<in> dom (branch st)))"

text \<open>
  The invariant of the search. The predecessor entries form a tree rooted at the start:
  every entry is one move away from its predecessor and costs one more than it. Every
  key of \<^verbatim>\<open>branch\<close> is visited; a visited cell that has left the queue has all
  its free neighbours visited; and the goal, once visited, waits in the queue.
\<close>

definition tree_ok :: "cell \<Rightarrow> (cell \<rightharpoonup> (real \<times> cell \<times> Action)) \<Rightarrow> bool" where
  "tree_ok start br =
     (\<forall>c cst p a. br c = Some (cst, p, a) \<longrightarrow>
        c = move p a \<and>
        (\<exists>n \<ge> 1. cst = real n \<and>
           (if p = start then n = 1 else (\<exists>p' a'. br p = Some (real (n - 1), p', a')))))"

definition cost_ok :: "cell \<Rightarrow> cell \<Rightarrow> real \<Rightarrow> (cell \<rightharpoonup> (real \<times> cell \<times> Action)) \<Rightarrow> bool" where
  "cost_ok start c cc br =
     (if c = start then cc = 0 else (\<exists>m p a. 1 \<le> m \<and> cc = real m \<and> br c = Some (real m, p, a)))"

definition keys_visited :: "search_state \<Rightarrow> bool" where
  "keys_visited st = (\<forall>c \<in> dom (branch st). Node c \<in> visited st)"

definition closed :: "grid \<Rightarrow> cell \<Rightarrow> search_state \<Rightarrow> bool" where
  "closed g start st =
     (\<forall>c c'. (c = start \<or> Node c \<in> visited st) \<longrightarrow> c \<notin> snd ` set (queue st) \<longrightarrow>
        unit_move c c' \<longrightarrow> free_cell g c' \<longrightarrow> Node c' \<in> visited st)"

definition goal_pending :: "cell \<Rightarrow> search_state \<Rightarrow> bool" where
  "goal_pending goal st = (Node goal \<in> visited st \<longrightarrow> goal \<in> snd ` set (queue st))"

definition search_inv :: "grid \<Rightarrow> cell \<Rightarrow> cell \<Rightarrow> search_state \<Rightarrow> bool" where
  "search_inv g start goal st =
     (frontier_ok g start st \<and> closed g start st \<and> goal_pending goal st
      \<and> keys_visited st \<and> tree_ok start (branch st))"

fun unit_steps :: "cell list \<Rightarrow> bool" where
  "unit_steps (c # c' # cs) = (unit_move c c' \<and> unit_steps (c' # cs))"
| "unit_steps cs = True"

text \<open>
  The least entry of a frontier in Python's order on the tuples
  \<^verbatim>\<open>(queue_cost, node)\<close>: no entry has a smaller priority, and among the entries
  of the same priority none has a smaller cell, by north index and then by east index.
\<close>

definition least_entry :: "real \<times> cell \<Rightarrow> frontier \<Rightarrow> bool" where
  "least_entry item q =
     (item \<in> set q \<and>
      (\<forall>e \<in> set q. fst item < fst e
          \<or> (fst item = fst e
              \<and> (fst (snd item) < fst (snd e)
                  \<or> (fst (snd item) = fst (snd e) \<and> snd (snd item) \<le> snd (snd e))))))"

text \<open>Concrete inputs.\<close>

definition free_grid :: "nat \<Rightarrow> nat \<Rightarrow> grid" where
  "free_grid n m = \<lparr>shape0 = n, shape1 = m, cells = (\<lambda>i j. 0)\<rparr>"

definition wall_grid :: grid where
  "wall_grid = \<lparr>shape0 = 1, shape1 = 3, cells = (\<lambda>i j. if j = 1 then 1 else 0)\<rparr>"

definition row_grid :: grid where
  "row_grid = \<lparr>shape0 = 3, shape1 = 3, cells = (\<lambda>i j. if i = 1 then 1 else 0)\<rparr>"

definition idle_env :: environment where
  "idle_env = \<lparr>lat0 = 0, lon0 = 0, colliders = [], global_to_local = (\<lambda>p h. p),
                np_linalg_det = det3\<rparr>"

definition armed_disarming :: drone where
  "armed_disarming =
     \<lparr>flight_state = DISARMING, target_position = [0, 0, 5], waypoints = [], in_mission = True,
      armed = True, guided = True, local_position = (0, 0, 0), local_velocity = (0, 0, 0),
      global_position = (0, 0, 0), global_home = (0, 0, 0), altitude = 0,
      commands = [Disarm, ReleaseControl]\<rparr>"

definition blocked_env :: environment where
  "blocked_env =
     \<lparr>lat0 = 37792480 / 1000000, lon0 = - 122397450 / 1000000,
      colliders = [(1, 1, 5, 1, 1, 5), (1, 1, 10, 1, 1, 10)],
      global_to_local = (\<lambda>p h. if fst p = - 122396362 / 1000000 then (1, 1, 0) else (0, 0, 0)),
      np_linalg_det = det3\<rparr>"

definition armed_drone :: drone where
  "armed_drone =
     \<lparr>flight_state = ARMING, target_position = [0, 0, 0], waypoints = [], in_mission = True,
      armed = True, guided = True, local_position = (0, 0, 0), local_velocity = (0, 0, 0),
      global_position = (- 122397450 / 1000000, 37792480 / 1000000, 0),
      global_home = (- 122397450 / 1000000, 37792480 / 1000000, 0), altitude = 0,
      commands = [Arm, TakeControl]\<rparr>"

definition planned_drone :: drone where
  "planned_drone =
     armed_drone\<lparr>flight_state := PLANNING, target_position := [0, 0, 5],
       commands := [Arm, TakeControl,
                    SetHomePosition (- 122397450 / 1000000) (37792480 / 1000000) 0,
                    SendWaypoints []]\<rparr>"

definition airborne_drone :: drone where
  "airborne_drone =
     planned_drone\<lparr>flight_state := TAKEOFF,
       commands := [Arm, TakeControl,
                    SetHomePosition (- 122397450 / 1000000) (37792480 / 1000000) 0,
                    SendWaypoints [], Takeoff 5],
       local_position := (0, 0, - 5)\<rparr>"

text \<open>
  The state of the search on the free 2 by 2 grid from \<open>(1,1)\<close> to \<open>(0,0)\<close>
  after the first pass of the loop, and after the second.
\<close>

definition tie_state :: search_state where
  "tie_state = expand heuristic (0, 0) (1, 1) 0 [WEST, NORTH] ((initial_state (1, 1))\<lparr>queue := []\<rparr>)"

definition tie_next :: search_state where
  "tie_next = expand heuristic (0, 0) (0, 1) 1 [WEST, SOUTH] (tie_state\<lparr>queue := [(2, (1, 0))]\<rparr>)"

definition full_grid :: grid where
  "full_grid = \<lparr>shape0 = 2, shape1 = 2, cells = (\<lambda>i j. if i < 2 \<and> j < 2 then 1 else 0)\<rparr>"

section \<open>Theorems\<close>

subsection \<open>Lemmas on the search\<close>

lemma a_star_loop_goal_first:
  "a_star_loop g h c c (initial_state c) = Inr ((initial_state c)\<lparr>queue := [], found := True\<rparr>)"
  by (simp add: a_star_loop.simps initial_state_def queue_put_def a_star_iter_def queue_get_def)

lemma np_index_in: "0 \<le> i \<Longrightarrow> i < int n \<Longrightarrow> np_index n i = Inr (nat i)"
  by (simp add: np_index_def)

lemma blocked_in_grid:
  "in_grid g c \<Longrightarrow> blocked g off c = Inr (off \<or> \<not> free_cell g c)"
  by (auto simp: blocked_def grid_get_def in_grid_def free_cell_def np_index_in)

lemma blocked_off: "blocked g True c = Inr True"
  by (simp add: blocked_def)

lemma valid_actions_in_grid:
  assumes "in_grid g c"
  shows "\<exists>actions. valid_actions g c = Inr actions \<and> (\<forall>a \<in> set actions. free_cell g (move c a))"
proof -
  obtain x y where c: "c = (x, y)" by (cases c)
  have xy: "0 \<le> x" "x < int (shape0 g)" "0 \<le> y" "y < int (shape1 g)"
    using assms c by (auto simp: in_grid_def)
  have bn: "blocked g (x - 1 < 0) (x - 1, y) = Inr (x - 1 < 0 \<or> \<not> free_cell g (x - 1, y))"
    using xy by (cases "x - 1 < 0") (auto simp: blocked_off blocked_in_grid in_grid_def)
  have bs: "blocked g (x + 1 > int (shape0 g) - 1) (x + 1, y)
              = Inr (x + 1 > int (shape0 g) - 1 \<or> \<not> free_cell g (x + 1, y))"
    using xy by (cases "x + 1 > int (shape0 g) - 1") (auto simp: blocked_off blocked_in_grid in_grid_def)
  have bw: "blocked g (y - 1 < 0) (x, y - 1) = Inr (y - 1 < 0 \<or> \<not> free_cell g (x, y - 1))"
    using xy by (cases "y - 1 < 0") (auto simp: blocked_off blocked_in_grid in_grid_def)
  have be: "blocked g (y + 1 > int (shape1 g) - 1) (x, y + 1)
              = Inr (y + 1 > int (shape1 g) - 1 \<or> \<not> free_cell g (x, y + 1))"
    using xy by (cases "y + 1 > int (shape1 g) - 1") (auto simp: blocked_off blocked_in_grid in_grid_def)
  show ?thesis
    unfolding c valid_actions_def Let_def fst_conv snd_conv bn bs bw be sum.case
    by (auto simp: drop_if_def move_def)
qed

lemma expand_Cons:
  "expand h goal c cc (a # actions) st =
     (if Node (move c a) \<notin> visited st then expand h goal c cc actions (push h goal c cc a st)
      else expand h goal c cc actions st)"
  by (simp add: Let_def move_def push_def)

lemma expand_found: "found (expand h goal c cc actions st) = found st"
  by (induction actions arbitrary: st) (simp_all add: expand_Cons push_def del: expand.simps(2))

lemma expand_dom: "dom (branch st) \<subseteq> dom (branch (expand h goal c cc actions st))"
proof (induction actions arbitrary: st)
  case Nil
  show ?case by simp
next
  case (Cons a actions)
  show ?case
  proof (cases "Node (move c a) \<in> visited st")
    case True
    then show ?thesis using Cons[of st] by (simp add: expand_Cons del: expand.simps(2))
  next
    case False
    have "dom (branch st) \<subseteq> dom (branch (push h goal c cc a st))"
      by (auto simp: push_def)
    also have "\<dots> \<subseteq> dom (branch (expand h goal c cc actions (push h goal c cc a st)))"
      by (rule Cons)
    finally show ?thesis using False by (simp add: expand_Cons del: expand.simps(2))
  qed
qed

lemma expand_queue:
  assumes "item \<in> set (queue (expand h goal c cc actions st))"
  shows "item \<in> set (queue st) \<or>
         (\<exists>a \<in> set actions. snd item = move c a \<and> snd item \<in> dom (branch (expand h goal c cc actions st)))"
  using assms
proof (induction actions arbitrary: st)
  case Nil
  then show ?case by simp
next
  case (Cons a actions)
  show ?case
  proof (cases "Node (move c a) \<in> visited st")
    case True
    then show ?thesis using Cons by (fastforce simp: expand_Cons simp del: expand.simps(2))
  next
    case False
    let ?st = "push h goal c cc a st"
    have eq: "expand h goal c cc (a # actions) st = expand h goal c cc actions ?st"
      using False by (simp add: expand_Cons del: expand.simps(2))
    from Cons.prems have "item \<in> set (queue (expand h goal c cc actions ?st))"
      by (simp add: eq del: expand.simps(2))
    from Cons.IH[OF this] consider
      (old) "item \<in> set (queue st)" | (new) "item = (cc + cost a + h (move c a) goal, move c a)"
      | (later) "\<exists>a \<in> set actions. snd item = move c a \<and> snd item \<in> dom (branch (expand h goal c cc actions ?st))"
      by (auto simp: queue_put_def push_def)
    then show ?thesis
    proof cases
      case old
      then show ?thesis by simp
    next
      case new
      have "move c a \<in> dom (branch ?st)" by (simp add: push_def)
      then have "move c a \<in> dom (branch (expand h goal c cc actions ?st))"
        using expand_dom by blast
      with new show ?thesis by (simp add: eq del: expand.simps(2))
    next
      case later
      then show ?thesis by (auto simp: eq simp del: expand.simps(2))
    qed
  qed
qed

lemma unit_move_move: "unit_move c (move c a)"
  by (cases a) (simp_all add: unit_move_def)

lemma free_cell_in_grid: "free_cell g c \<Longrightarrow> in_grid g c"
  by (simp add: free_cell_def)

lemma a_star_iter_frontier_ok:
  assumes ok: "frontier_ok g start st" and ne: "queue st \<noteq> []"
    and unreach: "\<not> reachable g start goal"
  shows "\<exists>st'. a_star_iter g h start goal st = Inr (False, st')
           \<and> frontier_ok g start st' \<and> found st' = found st"
proof -
  obtain item q where qg: "queue_get (queue st) = (item, q)" by (cases "queue_get (queue st)")
  have item: "item \<in> set (queue st)" and q: "set q \<subseteq> set (queue st)"
    using qg ne set_remove1_subset[of "Min (set (queue st))" "queue st"]
    by (auto simp: queue_get_def Let_def)
  let ?c = "snd item"
  from ok item have cur: "in_grid g ?c" "reachable g start ?c" "?c = start \<or> ?c \<in> dom (branch st)"
    by (auto simp: frontier_ok_def)
  from cur(2) unreach have ng: "?c \<noteq> goal" by auto
  obtain cc where cc: "(if ?c = start then Inr 0
               else (case branch st ?c of None \<Rightarrow> Inl KeyError | Some entry \<Rightarrow> Inr (fst entry)))
            = (Inr cc :: error + real)"
    using cur(3) by (cases "?c = start") auto
  obtain actions where va: "valid_actions g ?c = Inr actions"
    and free: "\<forall>a \<in> set actions. free_cell g (move ?c a)"
    using valid_actions_in_grid[OF cur(1)] by blast
  let ?st' = "expand h goal ?c cc actions (st\<lparr>queue := q\<rparr>)"
  have iter: "a_star_iter g h start goal st = Inr (False, ?st')"
    by (simp add: a_star_iter_def qg cc va ng Let_def)
  have "frontier_ok g start ?st'"
    unfolding frontier_ok_def
  proof
    fix it assume "it \<in> set (queue ?st')"
    from expand_queue[OF this] show "in_grid g (snd it) \<and> reachable g start (snd it)
         \<and> (snd it = start \<or> snd it \<in> dom (branch ?st'))"
    proof
      assume "it \<in> set (queue (st\<lparr>queue := q\<rparr>))"
      then have "it \<in> set (queue st)" using q by auto
      with ok have "in_grid g (snd it)" "reachable g start (snd it)"
        "snd it = start \<or> snd it \<in> dom (branch st)"
        by (auto simp: frontier_ok_def)
      moreover have "dom (branch st) \<subseteq> dom (branch ?st')"
        using expand_dom[of "st\<lparr>queue := q\<rparr>"] by simp
      ultimately show ?thesis by blast
    next
      assume "\<exists>a \<in> set actions. snd it = move ?c a \<and> snd it \<in> dom (branch ?st')"
      then obtain a where a: "a \<in> set actions" "snd it = move ?c a" "snd it \<in> dom (branch ?st')"
        by blast
      from free a have fc: "free_cell g (snd it)" by simp
      then have "reachable g start (snd it)"
        using reachable_step[OF cur(2) unit_move_move[of ?c a]] a(2) by simp
      with fc a(3) show ?thesis by (simp add: free_cell_in_grid)
    qed
  qed
  moreover have "found ?st' = found st" by (simp add: expand_found)
  ultimately show ?thesis using iter by blast
qed

lemma a_star_loop_unreachable:
  "frontier_ok g start st \<Longrightarrow> \<not> found st \<Longrightarrow> \<not> reachable g start goal \<Longrightarrow>
   \<exists>st'. a_star_loop g h start goal st = Inr st' \<and> \<not> found st'"
proof (induction g h start goal st rule: a_star_loop.induct)
  case (1 g h start goal st)
  show ?case
  proof (cases "queue st = []")
    case True
    then show ?thesis using "1.prems" by (simp add: a_star_loop.simps)
  next
    case False
    from a_star_iter_frontier_ok[OF "1.prems"(1) False "1.prems"(3), of h]
    obtain st' where it: "a_star_iter g h start goal st = Inr (False, st')"
      and ok': "frontier_ok g start st'" and f': "found st' = found st"
      by blast
    have "\<exists>st''. a_star_loop g h start goal st' = Inr st'' \<and> \<not> found st''"
      using "1.IH"[OF False it refl _ ok'] f' "1.prems" by simp
    then show ?thesis
      using False it by (subst a_star_loop.simps) simp
  qed
qed

lemma frontier_ok_initial: "in_grid g start \<Longrightarrow> frontier_ok g start (initial_state start)"
  by (simp add: frontier_ok_def initial_state_def queue_put_def reachable_start)

lemma move_neq: "move c a \<noteq> c"
  by (cases a; cases c) (simp_all add: move_def)

lemma expand_visited_mono: "visited st \<subseteq> visited (expand h goal c cc actions st)"
proof (induction actions arbitrary: st)
  case Nil
  show ?case by simp
next
  case (Cons a actions)
  have "visited st \<subseteq> visited (push h goal c cc a st)" by (auto simp: push_def)
  with Cons[of st] Cons[of "push h goal c cc a st"] show ?case
    by (simp add: expand_Cons del: expand.simps(2)) blast
qed

lemma expand_queue_mono: "set (queue st) \<subseteq> set (queue (expand h goal c cc actions st))"
proof (induction actions arbitrary: st)
  case Nil
  show ?case by simp
next
  case (Cons a actions)
  have "set (queue st) \<subseteq> set (queue (push h goal c cc a st))"
    by (auto simp: push_def queue_put_def)
  with Cons[of st] Cons[of "push h goal c cc a st"] show ?case
    by (simp add: expand_Cons del: expand.simps(2)) blast
qed

lemma expand_visits_all:
  "a \<in> set actions \<Longrightarrow> Node (move c a) \<in> visited (expand h goal c cc actions st)"
proof (induction actions arbitrary: st)
  case Nil
  then show ?case by simp
next
  case (Cons b actions)
  show ?case
  proof (cases "a = b")
    case True
    have "Node (move c b) \<in> visited (push h goal c cc b st)" by (simp add: push_def)
    then show ?thesis
      using True expand_visited_mono[of st h goal c cc actions]
        expand_visited_mono[of "push h goal c cc b st" h goal c cc actions]
      by (auto simp: expand_Cons simp del: expand.simps(2))
  next
    case False
    with Cons.prems have "a \<in> set actions" by simp
    then show ?thesis using Cons.IH by (simp add: expand_Cons del: expand.simps(2))
  qed
qed

lemma expand_new_visited:
  "Node x \<in> visited (expand h goal c cc actions st) \<Longrightarrow>
     Node x \<in> visited st \<or> x \<in> snd ` set (queue (expand h goal c cc actions st))"
proof (induction actions arbitrary: st)
  case Nil
  then show ?case by simp
next
  case (Cons a actions)
  show ?case
  proof (cases "Node (move c a) \<in> visited st")
    case True
    then show ?thesis using Cons by (simp add: expand_Cons del: expand.simps(2))
  next
    case False
    let ?st = "push h goal c cc a st"
    have eq: "expand h goal c cc (a # actions) st = expand h goal c cc actions ?st"
      using False by (simp add: expand_Cons del: expand.simps(2))
    from Cons.prems have "Node x \<in> visited (expand h goal c cc actions ?st)"
      by (simp add: eq del: expand.simps(2))
    from Cons.IH[OF this] show ?thesis
    proof
      assume "Node x \<in> visited ?st"
      then have "Node x \<in> visited st \<or> x = move c a" by (auto simp: push_def)
      moreover have "move c a \<in> snd ` set (queue ?st)"
        by (force simp: push_def queue_put_def)
      then have "move c a \<in> snd ` set (queue (expand h goal c cc actions ?st))"
        using expand_queue_mono by blast
      ultimately show ?thesis unfolding eq by blast
    next
      assume "x \<in> snd ` set (queue (expand h goal c cc actions ?st))"
      then show ?thesis unfolding eq by blast
    qed
  qed
qed

lemma expand_keys_visited:
  "keys_visited st \<Longrightarrow> keys_visited (expand h goal c cc actions st)"
proof (induction actions arbitrary: st)
  case Nil
  then show ?case by simp
next
  case (Cons a actions)
  have "keys_visited (push h goal c cc a st)"
    using Cons.prems by (auto simp: keys_visited_def push_def)
  with Cons show ?case by (simp add: expand_Cons del: expand.simps(2))
qed

lemma push_tree_ok:
  assumes t: "tree_ok start (branch st)" and k: "keys_visited st"
    and c: "cost_ok start c cc (branch st)" and new: "Node (move c a) \<notin> visited st"
  shows "tree_ok start (branch (push h goal c cc a st)) \<and> cost_ok start c cc (branch (push h goal c cc a st))"
proof -
  let ?n = "move c a"
  let ?br = "(branch st)(?n \<mapsto> (cc + cost a, c, a))"
  have nd: "branch st ?n = None" using k new by (auto simp: keys_visited_def)
  have keep: "\<And>x e. branch st x = Some e \<Longrightarrow> ?br x = Some e" using nd by auto
  have cost1: "cost a = 1" by (cases a) simp_all
  have c': "cost_ok start c cc ?br"
  proof (cases "c = start")
    case True
    with c show ?thesis by (simp add: cost_ok_def)
  next
    case False
    with c obtain m p' a' where m: "1 \<le> m" "cc = real m" "branch st c = Some (real m, p', a')"
      by (auto simp: cost_ok_def)
    from keep[OF m(3)] m(1,2) False show ?thesis
      unfolding cost_ok_def by (simp del: fun_upd_apply)
  qed
  have "tree_ok start ?br"
    unfolding tree_ok_def
  proof (intro allI impI)
    fix x cst p b assume e: "?br x = Some (cst, p, b)"
    show "x = move p b \<and>
        (\<exists>n \<ge> 1. cst = real n \<and>
           (if p = start then n = 1 else (\<exists>p' a'. ?br p = Some (real (n - 1), p', a'))))"
    proof (cases "x = ?n")
      case True
      with e have eq: "cst = cc + 1" "p = c" "b = a" by (simp_all add: cost1)
      show ?thesis
      proof (cases "c = start")
        case True
        with c have "cc = 0" by (simp add: cost_ok_def)
        with eq \<open>x = ?n\<close> True show ?thesis by (intro conjI exI[of _ 1]) simp_all
      next
        case False
        with c obtain m p' a' where m: "1 \<le> m" "cc = real m" "branch st c = Some (real m, p', a')"
          by (auto simp: cost_ok_def)
        from keep[OF m(3)] have "?br c = Some (real m, p', a')" .
        with eq \<open>x = ?n\<close> False m(1,2) show ?thesis
          by (intro conjI exI[of _ "m + 1"]) (simp_all del: fun_upd_apply)
      qed
    next
      case False
      with e have old: "branch st x = Some (cst, p, b)" by simp
      with t obtain n where n: "x = move p b" "1 \<le> n" "cst = real n"
        "if p = start then n = 1 else (\<exists>p' a'. branch st p = Some (real (n - 1), p', a'))"
        unfolding tree_ok_def by blast
      have "if p = start then n = 1 else (\<exists>p' a'. ?br p = Some (real (n - 1), p', a'))"
      proof (cases "p = start")
        case True
        with n(4) show ?thesis by simp
      next
        case False
        with n(4) obtain p' a' where "branch st p = Some (real (n - 1), p', a')" by auto
        from keep[OF this] have "\<exists>p' a'. ?br p = Some (real (n - 1), p', a')" by blast
        with False show ?thesis by (simp del: fun_upd_apply)
      qed
      with n show ?thesis by blast
    qed
  qed
  with c' show ?thesis by (simp add: push_def)
qed

lemma expand_tree_ok:
  "tree_ok start (branch st) \<Longrightarrow> keys_visited st \<Longrightarrow> cost_ok start c cc (branch st) \<Longrightarrow>
     tree_ok start (branch (expand h goal c cc actions st))"
proof (induction actions arbitrary: st)
  case Nil
  then show ?case by simp
next
  case (Cons a actions)
  show ?case
  proof (cases "Node (move c a) \<in> visited st")
    case True
    then show ?thesis using Cons by (simp add: expand_Cons del: expand.simps(2))
  next
    case False
    let ?st = "push h goal c cc a st"
    from push_tree_ok[OF Cons.prems(1,2,3) False, of h goal]
    have t: "tree_ok start (branch ?st)" and co: "cost_ok start c cc (branch ?st)" by simp_all
    have kv: "keys_visited ?st"
      using Cons.prems(2) by (auto simp: keys_visited_def push_def)
    have "tree_ok start (branch (expand h goal c cc actions ?st))"
      using t kv co by (rule Cons.IH)
    then show ?thesis using False by (simp add: expand_Cons del: expand.simps(2))
  qed
qed


lemma valid_actions_exact:
  assumes "in_grid g c" and "valid_actions g c = Inr actions"
  shows "(a \<in> set actions) = free_cell g (move c a)"
proof -
  obtain x y where c: "c = (x, y)" by (cases c)
  have xy: "0 \<le> x" "x < int (shape0 g)" "0 \<le> y" "y < int (shape1 g)"
    using assms c by (auto simp: in_grid_def)
  have bn: "blocked g (x - 1 < 0) (x - 1, y) = Inr (\<not> free_cell g (x - 1, y))"
    using xy by (cases "x - 1 < 0")
      (auto simp: blocked_off blocked_in_grid in_grid_def free_cell_def)
  have bs: "blocked g (x + 1 > int (shape0 g) - 1) (x + 1, y) = Inr (\<not> free_cell g (x + 1, y))"
    using xy by (cases "x + 1 > int (shape0 g) - 1")
      (auto simp: blocked_off blocked_in_grid in_grid_def free_cell_def)
  have bw: "blocked g (y - 1 < 0) (x, y - 1) = Inr (\<not> free_cell g (x, y - 1))"
    using xy by (cases "y - 1 < 0")
      (auto simp: blocked_off blocked_in_grid in_grid_def free_cell_def)
  have be: "blocked g (y + 1 > int (shape1 g) - 1) (x, y + 1) = Inr (\<not> free_cell g (x, y + 1))"
    using xy by (cases "y + 1 > int (shape1 g) - 1")
      (auto simp: blocked_off blocked_in_grid in_grid_def free_cell_def)
  have "actions = drop_if (\<not> free_cell g (x, y + 1)) EAST (drop_if (\<not> free_cell g (x, y - 1)) WEST
           (drop_if (\<not> free_cell g (x + 1, y)) SOUTH
             (drop_if (\<not> free_cell g (x - 1, y)) NORTH [WEST, EAST, NORTH, SOUTH])))"
    using assms(2) unfolding c valid_actions_def Let_def fst_conv snd_conv bn bs bw be sum.case
    by simp
  then show ?thesis
    unfolding c by (cases a) (auto simp: drop_if_def move_def)
qed

lemma search_inv_initial: "in_grid g start \<Longrightarrow> search_inv g start goal (initial_state start)"
  unfolding search_inv_def
  by (simp add: frontier_ok_initial)
     (simp add: closed_def goal_pending_def keys_visited_def tree_ok_def initial_state_def
        queue_put_def)

lemma a_star_iter_inv:
  assumes inv: "search_inv g start goal st" and ne: "queue st \<noteq> []"
  shows "(\<exists>st'. a_star_iter g h start goal st = Inr (True, st') \<and> found st'
            \<and> branch st' = branch st \<and> (goal = start \<or> goal \<in> dom (branch st)))
       \<or> (\<exists>st'. a_star_iter g h start goal st = Inr (False, st') \<and> search_inv g start goal st')"
proof -
  from inv have ok: "frontier_ok g start st" and cl: "closed g start st"
    and gp: "goal_pending goal st" and kv: "keys_visited st" and tr: "tree_ok start (branch st)"
    by (simp_all add: search_inv_def)
  obtain item q where qg: "queue_get (queue st) = (item, q)" by (cases "queue_get (queue st)")
  have item: "item \<in> set (queue st)" and q: "q = remove1 item (queue st)"
    using qg ne by (auto simp: queue_get_def Let_def)
  let ?c = "snd item"
  from ok item have cur: "in_grid g ?c" "reachable g start ?c" "?c = start \<or> ?c \<in> dom (branch st)"
    by (auto simp: frontier_ok_def)
  obtain cc where cc: "(if ?c = start then Inr 0
               else (case branch st ?c of None \<Rightarrow> Inl KeyError | Some entry \<Rightarrow> Inr (fst entry)))
            = (Inr cc :: error + real)"
    using cur(3) by (cases "?c = start") auto
  have co: "cost_ok start ?c cc (branch st)"
  proof (cases "?c = start")
    case True
    with cc show ?thesis by (simp add: cost_ok_def)
  next
    case False
    with cur(3) obtain cst p a where e: "branch st ?c = Some (cst, p, a)" by auto
    with cc False have "cc = cst" by simp
    moreover from tr e obtain n where "1 \<le> n" "cst = real n" unfolding tree_ok_def by blast
    ultimately show ?thesis using e False unfolding cost_ok_def by auto
  qed
  show ?thesis
  proof (cases "?c = goal")
    case True
    have "a_star_iter g h start goal st = Inr (True, st\<lparr>queue := q, found := True\<rparr>)"
      using cc True by (simp add: a_star_iter_def qg Let_def)
    moreover have "goal = start \<or> goal \<in> dom (branch st)" using cur(3) True by simp
    ultimately show ?thesis by simp
  next
    case ng: False
    obtain actions where va: "valid_actions g ?c = Inr actions"
      using valid_actions_in_grid[OF cur(1)] by blast
    let ?st0 = "st\<lparr>queue := q\<rparr>"
    let ?st' = "expand h goal ?c cc actions ?st0"
    have iter: "a_star_iter g h start goal st = Inr (False, ?st')"
      by (simp add: a_star_iter_def qg cc va ng Let_def)
    obtain st1 where it1: "a_star_iter g h start goal st = Inr (False, st1)"
      and ok': "frontier_ok g start st1"
    proof -
      have "?c \<noteq> goal" by (rule ng)
      have "\<exists>st1. a_star_iter g h start goal st = Inr (False, st1) \<and> frontier_ok g start st1"
      proof -
        have "frontier_ok g start ?st'"
          unfolding frontier_ok_def
        proof
          fix it assume "it \<in> set (queue ?st')"
          from expand_queue[OF this] show "in_grid g (snd it) \<and> reachable g start (snd it)
               \<and> (snd it = start \<or> snd it \<in> dom (branch ?st'))"
          proof
            assume "it \<in> set (queue ?st0)"
            then have "it \<in> set (queue st)"
              using q set_remove1_subset[of item "queue st"] by auto
            with ok have "in_grid g (snd it)" "reachable g start (snd it)"
              "snd it = start \<or> snd it \<in> dom (branch st)"
              by (auto simp: frontier_ok_def)
            moreover have "dom (branch st) \<subseteq> dom (branch ?st')"
              using expand_dom[of ?st0] by simp
            ultimately show ?thesis by blast
          next
            assume "\<exists>a \<in> set actions. snd it = move ?c a \<and> snd it \<in> dom (branch ?st')"
            then obtain a where a: "a \<in> set actions" "snd it = move ?c a"
              "snd it \<in> dom (branch ?st')" by blast
            from a(1) have fc: "free_cell g (snd it)"
              using valid_actions_exact[OF cur(1) va] a(2) by simp
            then have "reachable g start (snd it)"
              using reachable_step[OF cur(2) unit_move_move[of ?c a]] a(2) by simp
            with fc a(3) show ?thesis by (simp add: free_cell_in_grid)
          qed
        qed
        with iter show ?thesis by blast
      qed
      then show ?thesis using that by blast
    qed
    from it1 iter have st1: "st1 = ?st'" by simp
    have vis_mono: "visited st \<subseteq> visited ?st'"
      using expand_visited_mono[of ?st0] by simp
    have q_mono: "set q \<subseteq> set (queue ?st')"
      using expand_queue_mono[of ?st0] by simp
    have old_queue: "set (queue st) \<subseteq> insert item (set q)"
    proof
      fix x assume x: "x \<in> set (queue st)"
      show "x \<in> insert item (set q)"
      proof (cases "x = item")
        case True
        then show ?thesis by simp
      next
        case False
        with x show ?thesis unfolding q by (simp add: in_set_remove1)
      qed
    qed
    have new_vis: "\<And>x. Node x \<in> visited ?st' \<Longrightarrow> Node x \<in> visited st \<or> x \<in> snd ` set (queue ?st')"
      using expand_new_visited[of _ h goal ?c cc actions ?st0] by simp
    have "closed g start ?st'"
      unfolding closed_def
    proof (intro allI impI)
      fix c c'
      assume v: "c = start \<or> Node c \<in> visited ?st'" and nq: "c \<notin> snd ` set (queue ?st')"
        and um: "unit_move c c'" and fc: "free_cell g c'"
      show "Node c' \<in> visited ?st'"
      proof (cases "c = ?c")
        case True
        from um obtain a where a: "c' = move c a" by (auto simp: unit_move_def)
        with fc True have "a \<in> set actions" using valid_actions_exact[OF cur(1) va] by simp
        from expand_visits_all[OF this] a True show ?thesis by simp
      next
        case False
        have "c \<notin> snd ` set q" using nq q_mono by blast
        with False old_queue have nq0: "c \<notin> snd ` set (queue st)" by auto
        from v nq new_vis have "c = start \<or> Node c \<in> visited st" by blast
        with cl nq0 um fc have "Node c' \<in> visited st" unfolding closed_def by blast
        with vis_mono show ?thesis by blast
      qed
    qed
    moreover have "goal_pending goal ?st'"
      unfolding goal_pending_def
    proof
      assume "Node goal \<in> visited ?st'"
      from new_vis[OF this] show "goal \<in> snd ` set (queue ?st')"
      proof
        assume "Node goal \<in> visited st"
        with gp obtain it where it: "it \<in> set (queue st)" "snd it = goal"
          unfolding goal_pending_def by auto
        with ng have "it \<noteq> item" by auto
        with it(1) have "it \<in> set q" unfolding q by (simp add: in_set_remove1)
        with q_mono it(2) show ?thesis by force
      qed
    qed
    moreover have "keys_visited ?st'"
      using kv by (intro expand_keys_visited) (simp add: keys_visited_def)
    moreover have "tree_ok start (branch ?st')"
      using tr kv co by (intro expand_tree_ok) (simp_all add: keys_visited_def)
    ultimately have "search_inv g start goal ?st'"
      using ok' st1 by (simp add: search_inv_def)
    with iter show ?thesis by blast
  qed
qed

lemma closed_empty_reaches:
  assumes "closed g start st" and "queue st = []" and "reachable g start c"
  shows "c = start \<or> Node c \<in> visited st"
  using assms(3)
proof (induction rule: reachable.induct)
  case reachable_start
  show ?case by simp
next
  case (reachable_step c c')
  have "c \<notin> snd ` set (queue st)" using assms(2) by simp
  with reachable_step assms(1) have "Node c' \<in> visited st"
    unfolding closed_def by blast
  then show ?case by simp
qed

lemma a_star_loop_reachable:
  "search_inv g start goal st \<Longrightarrow> reachable g start goal \<Longrightarrow> start \<noteq> goal \<Longrightarrow>
   \<exists>st'. a_star_loop g h start goal st = Inr st' \<and> found st'
       \<and> tree_ok start (branch st') \<and> goal \<in> dom (branch st')"
proof (induction g h start goal st rule: a_star_loop.induct)
  case (1 g h start goal st)
  show ?case
  proof (cases "queue st = []")
    case True
    from "1.prems"(1) have cl: "closed g start st" and gp: "goal_pending goal st"
      by (simp_all add: search_inv_def)
    from closed_empty_reaches[OF cl True "1.prems"(2)] "1.prems"(3)
    have "Node goal \<in> visited st" by auto
    with gp True show ?thesis by (simp add: goal_pending_def)
  next
    case False
    from a_star_iter_inv[OF "1.prems"(1) False, of h] consider
      (brk) st' where "a_star_iter g h start goal st = Inr (True, st')" "found st'"
        "branch st' = branch st" "goal = start \<or> goal \<in> dom (branch st)"
      | (cont) st' where "a_star_iter g h start goal st = Inr (False, st')"
        "search_inv g start goal st'"
      by blast
    then show ?thesis
    proof cases
      case brk
      from "1.prems"(1) have "tree_ok start (branch st)" by (simp add: search_inv_def)
      with brk "1.prems"(3) False show ?thesis
        by (subst a_star_loop.simps) auto
    next
      case cont
      have "\<exists>st''. a_star_loop g h start goal st' = Inr st'' \<and> found st''
          \<and> tree_ok start (branch st'') \<and> goal \<in> dom (branch st'')"
        using "1.IH"[OF False cont(1) refl _ cont(2) "1.prems"(2,3)] by simp
      then show ?thesis using False cont(1) by (subst a_star_loop.simps) simp
    qed
  qed
qed

lemma unit_steps_snoc:
  "unit_steps cs \<Longrightarrow> cs \<noteq> [] \<Longrightarrow> unit_move (last cs) c \<Longrightarrow> unit_steps (cs @ [c])"
  by (induction cs rule: unit_steps.induct) auto

lemma retrace_tree:
  assumes t: "tree_ok start br"
  shows "br c = Some (real n, p, a) \<Longrightarrow>
     \<exists>path'. retrace br start c acc = Some (Inr (acc @ path')) \<and> length path' = n
        \<and> path' \<noteq> [] \<and> last path' = start \<and> unit_steps (rev (c # path'))"
proof (induction n arbitrary: c p a acc rule: less_induct)
  case (less n)
  from t less.prems obtain n' where n': "c = move p a" "1 \<le> n'" "real n = real n'"
    "if p = start then n' = 1 else (\<exists>p' a'. br p = Some (real (n' - 1), p', a'))"
    unfolding tree_ok_def by blast
  then have nn: "n' = n" by simp
  show ?case
  proof (cases "p = start")
    case True
    with n'(4) nn have "n = 1" by simp
    moreover have "retrace br start c acc = Some (Inr (acc @ [start]))"
      using less.prems True by (subst retrace.simps) simp
    moreover have "unit_move start c" using n'(1) True unit_move_move by simp
    ultimately show ?thesis by (intro exI[of _ "[start]"]) simp
  next
    case False
    with n'(4) nn obtain p' a' where e: "br p = Some (real (n - 1), p', a')" by auto
    from t e obtain m where "1 \<le> m" "real (n - 1) = real m" unfolding tree_ok_def by blast
    then have n2: "1 \<le> n - 1" by simp
    then have "n - 1 < n" by simp
    from less.IH[OF this e, of "acc @ [p]"] obtain path'' where
      r: "retrace br start p (acc @ [p]) = Some (Inr ((acc @ [p]) @ path''))"
      and l: "length path'' = n - 1" and ne: "path'' \<noteq> []" and la: "last path'' = start"
      and us: "unit_steps (rev (p # path''))" by blast
    have "retrace br start c acc = Some (Inr (acc @ (p # path'')))"
      using less.prems False r by (subst retrace.simps) simp
    moreover have "length (p # path'') = n" using l n2 by simp
    moreover have "last (p # path'') = start" using la ne by simp
    moreover have "unit_steps (rev (c # p # path''))"
    proof -
      have "unit_move (last (rev (p # path''))) c" using n'(1) unit_move_move by simp
      from unit_steps_snoc[OF us _ this] show ?thesis by simp
    qed
    ultimately show ?thesis by (intro exI[of _ "p # path''"]) simp
  qed
qed

text \<open>
  When the start lies in the grid and a sequence of unit moves into free cells connects
  it to a different goal, \<^verbatim>\<open>a_star\<close> returns a path from the start to the goal
  made of unit moves, whose number of steps is the returned cost.
\<close>

lemma a_star_reachable_path:
  assumes "in_grid g start" and "reachable g start goal" and "start \<noteq> goal"
  shows "\<exists>path path_cost. a_star g h start goal = Some (Inr (path, path_cost))
           \<and> real (length path - 1) = path_cost \<and> hd path = start \<and> last path = goal
           \<and> unit_steps path"
proof -
  from a_star_loop_reachable[OF search_inv_initial[OF assms(1)] assms(2,3), of h]
  obtain st' where loop: "a_star_loop g h start goal (initial_state start) = Inr st'"
    and f: "found st'" and t: "tree_ok start (branch st')" and d: "goal \<in> dom (branch st')"
    by blast
  from d obtain cst p a where e: "branch st' goal = Some (cst, p, a)" by auto
  with t obtain n where n: "cst = real n" unfolding tree_ok_def by blast
  from retrace_tree[OF t e[unfolded n], of "[goal]"] obtain path' where
    r: "retrace (branch st') start goal [goal] = Some (Inr ([goal] @ path'))"
    and l: "length path' = n" and ne: "path' \<noteq> []" and la: "last path' = start"
    and us: "unit_steps (rev (goal # path'))" by blast
  have "a_star g h start goal = Some (Inr (rev (goal # path'), real n))"
    by (simp add: a_star_def loop f e n r)
  moreover have "real (length (rev (goal # path')) - 1) = real n" using l by simp
  moreover have "hd (rev (goal # path')) = start" using la ne by (simp add: hd_rev)
  moreover have "last (rev (goal # path')) = goal" by simp
  ultimately show ?thesis using us by blast
qed


lemmas eval_search = a_star_def a_star_loop.simps initial_state_def queue_put_def queue_get_def
  a_star_iter_def valid_actions_def blocked_def grid_get_def np_index_def drop_if_def Let_def

lemma wall_unreachable: "reachable wall_grid (0, 0) c \<Longrightarrow> c = (0, 0)"
proof (induction rule: reachable.induct)
  case reachable_start
  show ?case by simp
next
  case (reachable_step c c')
  then show ?case
    by (auto simp: unit_move_def move_def free_cell_def in_grid_def wall_grid_def)
qed

lemma row_unreachable: "reachable row_grid (0, 0) c \<Longrightarrow> fst c = 0"
proof (induction rule: reachable.induct)
  case reachable_start
  show ?case by simp
next
  case (reachable_step c c')
  then show ?case
    by (auto simp: unit_move_def move_def free_cell_def in_grid_def row_grid_def)
qed

lemma cell_le: "((a::cell) \<le> b) = (fst a < fst b \<or> (fst a = fst b \<and> snd a \<le> snd b))"
  by (cases a; cases b) auto

lemma entry_least:
  "((x::real \<times> cell) \<le> y) \<Longrightarrow>
     fst x < fst y \<or> (fst x = fst y \<and> (fst (snd x) < fst (snd y)
        \<or> (fst (snd x) = fst (snd y) \<and> snd (snd x) \<le> snd (snd y))))"
  by (cases x; cases y) (auto simp: cell_le)

lemma Min_least_entry: "q \<noteq> [] \<Longrightarrow> least_entry (Min (set q)) q"
  unfolding least_entry_def
proof (intro conjI ballI)
  assume "q \<noteq> []"
  then show "Min (set q) \<in> set q" by (simp add: Min_in)
next
  fix e assume "e \<in> set q"
  then have "Min (set q) \<le> e" by simp
  then show "fst (Min (set q)) < fst e
          \<or> (fst (Min (set q)) = fst e
              \<and> (fst (snd (Min (set q))) < fst (snd e)
                  \<or> (fst (snd (Min (set q))) = fst (snd e) \<and> snd (snd (Min (set q))) \<le> snd (snd e))))"
    by (rule entry_least)
qed

lemma expand_queue_append:
  "\<exists>rest. queue (expand h goal c cc actions st) = queue st @ rest
     \<and> (\<forall>e \<in> set rest. \<exists>a. snd e = move c a \<and> fst e = cc + cost a + h (snd e) goal)"
proof (induction actions arbitrary: st)
  case Nil
  show ?case by simp
next
  case (Cons a actions)
  show ?case
  proof (cases "Node (move c a) \<in> visited st")
    case True
    then show ?thesis using Cons[of st] by (simp add: expand_Cons del: expand.simps(2))
  next
    case False
    let ?st = "push h goal c cc a st"
    from Cons[of ?st] obtain rest where
      r: "queue (expand h goal c cc actions ?st) = queue ?st @ rest"
      and e: "\<forall>e \<in> set rest. \<exists>a. snd e = move c a \<and> fst e = cc + cost a + h (snd e) goal"
      by blast
    let ?new = "(cc + cost a + h (move c a) goal, move c a)"
    have "queue ?st = queue st @ [?new]" by (simp add: push_def queue_put_def)
    with r have "queue (expand h goal c cc (a # actions) st) = queue st @ (?new # rest)"
      using False by (simp add: expand_Cons del: expand.simps(2))
    moreover have "\<forall>e \<in> set (?new # rest). \<exists>a. snd e = move c a \<and> fst e = cc + cost a + h (snd e) goal"
      using e by auto
    ultimately show ?thesis by blast
  qed
qed

lemma tie_state_queue: "queue tie_state = [(2, (1, 0)), (2, (0, 1))]"
  by (simp add: tie_state_def initial_state_def queue_put_def heuristic_def Let_def)

lemma tie_state_reached:
  "a_star_iter (free_grid 2 2) heuristic (1, 1) (0, 0) (initial_state (1, 1)) = Inr (False, tie_state)"
  by (simp add: a_star_iter_def initial_state_def queue_put_def queue_get_def valid_actions_def
        blocked_def grid_get_def np_index_def drop_if_def free_grid_def tie_state_def Let_def
        del: expand.simps)

lemma tie_state_step:
  "a_star_iter (free_grid 2 2) heuristic (1, 1) (0, 0) tie_state = Inr (False, tie_next)"
proof -
  have q: "queue_get (queue tie_state) = ((2, (0, 1)), [(2, (1, 0))])"
    by (simp add: tie_state_queue queue_get_def)
  have b: "branch tie_state (0, 1) = Some (1, (1, 1), NORTH)"
    by (simp add: tie_state_def initial_state_def Let_def)
  have v: "valid_actions (free_grid 2 2) (0, 1) = Inr [WEST, SOUTH]"
    by (simp add: valid_actions_def blocked_def grid_get_def np_index_def drop_if_def
          free_grid_def Let_def)
  show ?thesis
    by (simp add: a_star_iter_def q b v tie_next_def Let_def del: expand.simps)
qed

lemma tie_next_queue: "queue tie_next = [(2, (1, 0)), (2, (0, 0)), (2 + sqrt 2, (1, 1))]"
  by (simp add: tie_next_def tie_state_def initial_state_def queue_put_def heuristic_def Let_def)

subsection \<open>Lemmas on the state machine\<close>

text \<open>
  On Python booleans \<^verbatim>\<open>~a & ~b\<close> is -1 or -2, never 0: in state
  \<^verbatim>\<open>DISARMING\<close> every state update of a running mission ends in
  \<^verbatim>\<open>manual_transition\<close>.
\<close>

lemma py_flags: "(NOT (of_bool a) AND NOT (of_bool b) :: int) \<noteq> 0"
  by (cases a; cases b) simp_all

lemma disarming_always_manual:
  "in_mission d \<Longrightarrow> flight_state d = DISARMING \<Longrightarrow>
     state_callback env d = Some (Inr (manual_transition d))"
  by (simp add: state_callback_def py_flags)

subsection \<open>Lemmas on a failing plan\<close>

lemma blocked_grid:
  "create_grid [(1, 1, 5, 1, 1, 5), (1, 1, 10, 1, 1, 10)] 5 5 = Inr (full_grid, 0, 0)"
  by (auto simp: create_grid_def render_def py_int_def np_clip_def
        slice_assign_def slice_bound_def full_grid_def fun_eq_iff)

lemma blocked_grid_loadtxt:
  "create_grid_loadtxt [(1, 1, 5, 1, 1, 5), (1, 1, 10, 1, 1, 10)] 5 5 = Inr (full_grid, 0, 0)"
  by (simp add: create_grid_loadtxt_def blocked_grid)

lemma blocked_search:
  "a_star full_grid
     heuristic (0, 0) (1, 1) = Some (Inr ([], 0))"
  by (simp add: eval_search full_grid_def)

lemma prune_path_Nil: "prune_path det (Some []) = Inr []"
  by (simp add: prune_path_def prune_loop.simps)

lemma plan_blocked: "plan_path blocked_env armed_drone = Some (Inr planned_drone)"
  by (simp add: plan_path_def blocked_env_def armed_drone_def planned_drone_def
        blocked_grid_loadtxt TARGET_ALTITUDE_def SAFETY_DISTANCE_def grid_cell_def py_int_def
        blocked_search prune_path_Nil send_waypoints_def Let_def)

subsection \<open>Lemmas on the path simplifier\<close>

lemma small_int: "(\<bar>real_of_int k\<bar> < 1 / 1000000) = (k = 0)"
proof
  assume "\<bar>real_of_int k\<bar> < 1 / 1000000"
  then have "\<bar>real_of_int k\<bar> < 1" by linarith
  then have "\<bar>k\<bar> < 1" by linarith
  then show "k = 0" by linarith
qed simp

lemma det3_cross: "det3 (point a) (point b) (point c) = real_of_int (cross a b c)"
  by (simp add: det3_def point_def cross_def algebra_simps)

lemma det3_decides: "det_decides det3 S"
  unfolding det_decides_def det3_cross epsilon_def by (simp only: small_int) simp

lemma det_decides_mono: "det_decides det T \<Longrightarrow> S \<subseteq> T \<Longrightarrow> det_decides det S"
  unfolding det_decides_def by blast

lemma collinear_cross:
  "det_decides det S \<Longrightarrow> a \<in> S \<Longrightarrow> b \<in> S \<Longrightarrow> c \<in> S \<Longrightarrow>
     collinear det a b c = (cross a b c = 0)"
  unfolding det_decides_def collinear_def collinearity_check_def det3_cross by simp

lemma cross_chain:
  assumes "cross a b d = 0" and "cross b c d = 0" and "b \<noteq> d"
  shows "cross a b c = 0"
proof -
  obtain ax ay bx by' cx cy dx dy where
    [simp]: "a = (ax, ay)" "b = (bx, by')" "c = (cx, cy)" "d = (dx, dy)"
    by (cases a, cases b, cases c, cases d) auto
  define ux uy vx vy wx wy where
    "ux = ax - bx" and "uy = ay - by'" and "vx = dx - bx" and "vy = dy - by'"
    and "wx = cx - bx" and "wy = cy - by'"
  have uv: "ux * vy - uy * vx = 0"
    using assms(1) by (simp add: cross_def ux_def uy_def vx_def vy_def algebra_simps)
  have wv: "wx * vy - wy * vx = 0"
    using assms(2) by (simp add: cross_def wx_def wy_def vx_def vy_def algebra_simps)
  have v: "vx \<noteq> 0 \<or> vy \<noteq> 0"
    using assms(3) by (auto simp: vx_def vy_def)
  have "(ux * wy - uy * wx) * vx = ux * (wy * vx) - (uy * vx) * wx" by (simp add: algebra_simps)
  also have "\<dots> = ux * (wx * vy) - (ux * vy) * wx" using uv wv by simp
  also have "\<dots> = 0" by (simp add: algebra_simps)
  finally have x: "(ux * wy - uy * wx) * vx = 0" .
  have "(ux * wy - uy * wx) * vy = (ux * vy) * wy - uy * (wx * vy)" by (simp add: algebra_simps)
  also have "\<dots> = (uy * vx) * wy - uy * (wy * vx)" using uv wv by simp
  also have "\<dots> = 0" by (simp add: algebra_simps)
  finally have y: "(ux * wy - uy * wx) * vy = 0" .
  from x y v have "ux * wy - uy * wx = 0" by auto
  then show ?thesis
    by (simp add: cross_def ux_def uy_def wx_def wy_def algebra_simps)
qed

lemma remove1_nth_distinct:
  "distinct xs \<Longrightarrow> n < length xs \<Longrightarrow> remove1 (xs ! n) xs = take n xs @ drop (Suc n) xs"
proof (induction xs arbitrary: n)
  case Nil
  then show ?case by simp
next
  case (Cons x xs)
  show ?case
  proof (cases n)
    case 0
    then show ?thesis by simp
  next
    case (Suc m)
    with Cons.prems have "xs ! m \<in> set xs" by simp
    with Cons.prems have "x \<noteq> xs ! m" by auto
    with Cons Suc show ?thesis by simp
  qed
qed

lemma nth_cut:
  "Suc n < length xs \<Longrightarrow> j + 1 < length xs \<Longrightarrow>
     (take n xs @ drop (Suc n) xs) ! j = (if j < n then xs ! j else xs ! (j + 1))"
  by (auto simp: nth_append min_def)

lemma prune_loop_unfold:
  "prune_loop det xs i =
     (if i + 2 < length xs then
        (if straight_at det xs i then prune_loop det (remove1 (xs ! (i + 1)) xs) i
         else prune_loop det xs (i + 1))
      else xs)"
proof -
  have "(int i < int (length xs) - 2) = (i + 2 < length xs)" by linarith
  then show ?thesis
    by (subst prune_loop.simps) (simp add: straight_at_def collinear_def)
qed

lemma prune_loop_fixed:
  "(\<forall>k \<ge> i. k + 2 < length xs \<longrightarrow> \<not> straight_at det xs k) \<Longrightarrow> prune_loop det xs i = xs"
proof (induction det xs i rule: prune_loop.induct)
  case (1 det xs i)
  show ?case
  proof (cases "i + 2 < length xs")
    case True
    with "1.prems" have ns: "\<not> straight_at det xs i" by simp
    have "int i < int (length xs) - 2" using True by linarith
    moreover have "\<not> collinearity_check det (point (xs ! i)) (point (xs ! (i + 1))) (point (xs ! (i + 2)))"
      using ns by (simp add: straight_at_def collinear_def)
    ultimately have "prune_loop det xs (i + 1) = xs"
      using "1.IH"(2) "1.prems" by simp
    with True ns show ?thesis by (subst prune_loop_unfold) simp
  next
    case False
    then show ?thesis by (subst prune_loop_unfold) simp
  qed
qed

lemma prune_loop_no_straight:
  "distinct xs \<Longrightarrow> det_decides det (set xs) \<Longrightarrow>
     (\<forall>k < i. k + 2 < length xs \<longrightarrow> \<not> straight_at det xs k) \<Longrightarrow>
     (\<forall>k. k + 2 < length (prune_loop det xs i) \<longrightarrow> \<not> straight_at det (prune_loop det xs i) k)"
proof (induction det xs i rule: prune_loop.induct)
  case (1 det xs i)
  show ?case
  proof (cases "i + 2 < length xs")
    case False
    then have "prune_loop det xs i = xs" by (subst prune_loop_unfold) simp
    moreover have "\<forall>k. k + 2 < length xs \<longrightarrow> k < i" using False by auto
    ultimately show ?thesis using "1.prems"(3) by auto
  next
    case True
    then have lt: "int i < int (length xs) - 2" by linarith
    show ?thesis
    proof (cases "straight_at det xs i")
      case False
      then have nc: "\<not> collinearity_check det (point (xs ! i)) (point (xs ! (i + 1))) (point (xs ! (i + 2)))"
        by (simp add: straight_at_def collinear_def)
      have "\<forall>k < i + 1. k + 2 < length xs \<longrightarrow> \<not> straight_at det xs k"
        using "1.prems"(3) False by (auto simp: less_Suc_eq)
      from "1.IH"(2)[OF lt nc "1.prems"(1,2) this]
      show ?thesis using True False by (subst (1 2) prune_loop_unfold) simp
    next
      case st: True
      then have c: "collinearity_check det (point (xs ! i)) (point (xs ! (i + 1))) (point (xs ! (i + 2)))"
        by (simp add: straight_at_def collinear_def)
      let ?ys = "remove1 (xs ! (i + 1)) xs"
      have ys: "?ys = take (i + 1) xs @ drop (Suc (i + 1)) xs"
        using "1.prems"(1) True by (intro remove1_nth_distinct) auto
      have dys: "distinct ?ys" using "1.prems"(1) by simp
      have dec: "det_decides det (set ?ys)"
        using "1.prems"(2) by (rule det_decides_mono) (rule set_remove1_subset)
      have "xs ! (i + 1) \<in> set xs" using True by (intro nth_mem) simp
      then have len: "length ?ys = length xs - 1" by (simp add: length_remove1)
      have nth: "\<And>j. j + 1 < length xs \<Longrightarrow> ?ys ! j = (if j < i + 1 then xs ! j else xs ! (j + 1))"
        unfolding ys using True by (intro nth_cut) auto
      have "\<forall>k < i. k + 2 < length ?ys \<longrightarrow> \<not> straight_at det ?ys k"
      proof (intro allI impI)
        fix k assume k: "k < i" "k + 2 < length ?ys"
        show "\<not> straight_at det ?ys k"
        proof (cases "k + 1 = i")
          case False
          with k have "k + 2 < i + 1" by simp
          with k True have "straight_at det ?ys k = straight_at det xs k"
            using nth[of k] nth[of "k + 1"] nth[of "k + 2"] by (simp add: straight_at_def)
          with "1.prems"(3) k True show ?thesis by simp
        next
          case ki: True
          have tri: "?ys ! k = xs ! k" "?ys ! (k + 1) = xs ! i" "?ys ! (k + 2) = xs ! (i + 2)"
            using ki True nth[of k] nth[of "k + 1"] nth[of "k + 2"] by simp_all
          have mem: "xs ! k \<in> set xs" "xs ! i \<in> set xs" "xs ! (i + 1) \<in> set xs"
            "xs ! (i + 2) \<in> set xs"
            using True k by simp_all
          note cc = collinear_cross[OF "1.prems"(2)]
          have "\<not> collinear det (xs ! k) (xs ! i) (xs ! (i + 1))"
            using "1.prems"(3) k True ki by (auto simp: straight_at_def)
          then have n1: "cross (xs ! k) (xs ! i) (xs ! (i + 1)) \<noteq> 0"
            using cc[OF mem(1) mem(2) mem(3)] by simp
          have "collinear det (xs ! i) (xs ! (i + 1)) (xs ! (i + 2))"
            using st by (simp add: straight_at_def)
          then have c2: "cross (xs ! i) (xs ! (i + 1)) (xs ! (i + 2)) = 0"
            using cc[OF mem(2) mem(3) mem(4)] by simp
          have ne: "xs ! i \<noteq> xs ! (i + 2)"
            using "1.prems"(1) True by (simp add: nth_eq_iff_index_eq)
          have "cross (xs ! k) (xs ! i) (xs ! (i + 2)) \<noteq> 0"
            using cross_chain[OF _ c2 ne] n1 by blast
          then have "\<not> collinear det (xs ! k) (xs ! i) (xs ! (i + 2))"
            using cc[OF mem(1) mem(2) mem(4)] by simp
          then show ?thesis
            unfolding straight_at_def tri .
        qed
      qed
      from "1.IH"(1)[OF lt c dys dec this]
      show ?thesis using True st by (subst (1 2) prune_loop_unfold) simp
    qed
  qed
qed

lemma subseq_remove1: "subseq (remove1 x xs) xs"
  by (induction xs) auto


lemma last_remove1_nth:
  "n + 1 < length xs \<Longrightarrow> last (remove1 (xs ! n) xs) = last xs"
proof (induction xs arbitrary: n)
  case Nil
  then show ?case by simp
next
  case (Cons x xs)
  show ?case
  proof (cases "x = (x # xs) ! n")
    case True
    with Cons.prems show ?thesis by auto
  next
    case False
    then obtain m where n: "n = Suc m" by (cases n) auto
    with Cons.prems have m: "m + 1 < length xs" by simp
    then have "xs ! m \<in> set xs" by simp
    then have "length (remove1 (xs ! m) xs) = length xs - 1" by (simp add: length_remove1)
    with m have "remove1 (xs ! m) xs \<noteq> []" by auto
    with False n Cons.IH[OF m] m show ?thesis by auto
  qed
qed


lemma prune_loop_subseq: "subseq (prune_loop det xs i) xs"
proof (induction det xs i rule: prune_loop.induct)
  case (1 det xs i)
  show ?case
  proof (cases "i + 2 < length xs")
    case False
    then show ?thesis by (subst prune_loop_unfold) simp
  next
    case True
    then have lt: "int i < int (length xs) - 2" by linarith
    show ?thesis
    proof (cases "straight_at det xs i")
      case st: True
      then have c: "collinearity_check det (point (xs ! i)) (point (xs ! (i + 1))) (point (xs ! (i + 2)))"
        by (simp add: straight_at_def collinear_def)
      have "subseq (prune_loop det (remove1 (xs ! (i + 1)) xs) i) (remove1 (xs ! (i + 1)) xs)"
        by (rule "1.IH"(1)[OF lt c])
      then have "subseq (prune_loop det (remove1 (xs ! (i + 1)) xs) i) xs"
        by (rule subseq_order.trans[OF _ subseq_remove1])
      then show ?thesis using True st by (subst prune_loop_unfold) simp
    next
      case False
      then have nc: "\<not> collinearity_check det (point (xs ! i)) (point (xs ! (i + 1))) (point (xs ! (i + 2)))"
        by (simp add: straight_at_def collinear_def)
      from "1.IH"(2)[OF lt nc] show ?thesis using True False by (subst prune_loop_unfold) simp
    qed
  qed
qed


lemma prune_loop_last: "xs \<noteq> [] \<Longrightarrow> prune_loop det xs i \<noteq> [] \<and> last (prune_loop det xs i) = last xs"
proof (induction det xs i rule: prune_loop.induct)
  case (1 det xs i)
  show ?case
  proof (cases "i + 2 < length xs")
    case False
    then show ?thesis using "1.prems" by (subst (1 2) prune_loop_unfold) simp
  next
    case True
    then have lt: "int i < int (length xs) - 2" by linarith
    show ?thesis
    proof (cases "straight_at det xs i")
      case st: True
      then have c: "collinearity_check det (point (xs ! i)) (point (xs ! (i + 1))) (point (xs ! (i + 2)))"
        by (simp add: straight_at_def collinear_def)
      let ?ys = "remove1 (xs ! (i + 1)) xs"
      have "xs ! (i + 1) \<in> set xs" using True by (intro nth_mem) simp
      then have "length ?ys = length xs - 1" by (simp add: length_remove1)
      with True have ne: "?ys \<noteq> []" by auto
      have la: "last ?ys = last xs" using True by (intro last_remove1_nth) simp
      from "1.IH"(1)[OF lt c ne] la show ?thesis
        using True st by (subst (1 2) prune_loop_unfold) simp
    next
      case False
      then have nc: "\<not> collinearity_check det (point (xs ! i)) (point (xs ! (i + 1))) (point (xs ! (i + 2)))"
        by (simp add: straight_at_def collinear_def)
      from "1.IH"(2)[OF lt nc "1.prems"] show ?thesis
        using True False by (subst (1 2) prune_loop_unfold) simp
    qed
  qed
qed


lemma prune_loop_hd_distinct: "distinct xs \<Longrightarrow> hd (prune_loop det xs i) = hd xs"
proof (induction det xs i rule: prune_loop.induct)
  case (1 det xs i)
  show ?case
  proof (cases "i + 2 < length xs")
    case False
    then show ?thesis by (subst prune_loop_unfold) simp
  next
    case True
    then have lt: "int i < int (length xs) - 2" by linarith
    show ?thesis
    proof (cases "straight_at det xs i")
      case st: True
      then have c: "collinearity_check det (point (xs ! i)) (point (xs ! (i + 1))) (point (xs ! (i + 2)))"
        by (simp add: straight_at_def collinear_def)
      let ?ys = "remove1 (xs ! (i + 1)) xs"
      have ys: "?ys = take (i + 1) xs @ drop (Suc (i + 1)) xs"
        using "1.prems" True by (intro remove1_nth_distinct) auto
      have "hd ?ys = hd xs"
        unfolding ys using True by (cases xs) auto
      moreover have "distinct ?ys" using "1.prems" by simp
      ultimately show ?thesis
        using "1.IH"(1)[OF lt c] True st by (subst prune_loop_unfold) simp
    next
      case False
      then have nc: "\<not> collinearity_check det (point (xs ! i)) (point (xs ! (i + 1))) (point (xs ! (i + 2)))"
        by (simp add: straight_at_def collinear_def)
      from "1.IH"(2)[OF lt nc "1.prems"] show ?thesis
        using True False by (subst prune_loop_unfold) simp
    qed
  qed
qed


text \<open>
  A determinant routine that decides collinearity on the points of a path gives the
  result that the exact determinant gives.
\<close>

lemma prune_loop_decided:
  "det_decides det (set xs) \<Longrightarrow> prune_loop det xs i = prune_loop det3 xs i"
proof (induction det xs i rule: prune_loop.induct)
  case (1 det xs i)
  show ?case
  proof (cases "i + 2 < length xs")
    case False
    then show ?thesis by (subst (1 2) prune_loop_unfold) simp
  next
    case True
    then have lt: "int i < int (length xs) - 2" by linarith
    have mem: "xs ! i \<in> set xs" "xs ! (i + 1) \<in> set xs" "xs ! (i + 2) \<in> set xs"
      using True by simp_all
    have same: "straight_at det xs i = straight_at det3 xs i"
      unfolding straight_at_def
      using collinear_cross[OF "1.prems" mem] collinear_cross[OF det3_decides mem] by simp
    show ?thesis
    proof (cases "straight_at det xs i")
      case st: True
      then have c: "collinearity_check det (point (xs ! i)) (point (xs ! (i + 1))) (point (xs ! (i + 2)))"
        by (simp add: straight_at_def collinear_def)
      have dec: "det_decides det (set (remove1 (xs ! (i + 1)) xs))"
        using "1.prems" by (rule det_decides_mono) (rule set_remove1_subset)
      from "1.IH"(1)[OF lt c dec] show ?thesis
        using True st same by (subst (1 2) prune_loop_unfold) simp
    next
      case False
      then have nc: "\<not> collinearity_check det (point (xs ! i)) (point (xs ! (i + 1))) (point (xs ! (i + 2)))"
        by (simp add: straight_at_def collinear_def)
      from "1.IH"(2)[OF lt nc "1.prems"] show ?thesis
        using True False same by (subst (1 2) prune_loop_unfold) simp
    qed
  qed
qed

lemma prune_path_decided:
  "det_decides det (set p) \<Longrightarrow> prune_path det (Some p) = prune_path det3 (Some p)"
  by (simp add: prune_path_def prune_loop_decided)

text \<open>
  On every path \<^verbatim>\<open>prune_path\<close> returns a subsequence of its input; a non-empty
  input gives a non-empty output with the same last element, and an input of pairwise
  distinct points keeps its first element.
\<close>

lemma prune_path_subsequence:
  "\<exists>q. prune_path det (Some p) = Inr q \<and> subseq q p \<and> (p \<noteq> [] \<longrightarrow> q \<noteq> [] \<and> last q = last p)
       \<and> (distinct p \<longrightarrow> hd q = hd p)"
  by (simp add: prune_path_def prune_loop_subseq prune_loop_last prune_loop_hd_distinct)

subsection \<open>The claims\<close>

text \<open>
  C1. The specification has every rendered obstacle occupy, on the east axis, the cells
  from \<open>center_east - half_extent_east - safety_distance - east_min\<close> to
  \<open>center_east + half_extent_east + safety_distance - east_min\<close>, clipped to the width
  of the grid. For the single obstacle \<open>(5, 5, 5, 5, 5, 5)\<close>, altitude 5 and safety
  distance 5, \<^verbatim>\<open>create_grid\<close> returns a 10 by 10 grid whose row 0 is occupied up
  to column 5 only, although the obstacle covers column 9 by that rule.
\<close>

theorem create_grid_east_range:
  "(case create_grid [(5, 5, 5, 5, 5, 5)] 5 5 of
      Inl e \<Rightarrow> False
    | Inr (g, north_offset, east_offset) \<Rightarrow>
        shape0 g = 10 \<and> shape1 g = 10 \<and> north_offset = 0 \<and> east_offset = 0
        \<and> cells g 0 5 = 1 \<and> cells g 0 6 = 0 \<and> cells g 0 9 = 0)
   \<and> spec_covers 5 5 0 0 10 10 (5, 5, 5, 5, 5, 5) (0, 9)"
  by (simp add: create_grid_def render_def py_int_def np_clip_def slice_assign_def slice_bound_def
        spec_covers_def Let_def)

text \<open>
  C2, as stated, fails: on a grid of one row whose middle cell is occupied no sequence of
  moves connects \<open>(0,0)\<close> to \<open>(0,2)\<close>, and the whole result of \<^verbatim>\<open>a_star\<close> is
  the pair of the empty path and the cost 0. The result has no further component that
  signals the failure.
\<close>

theorem a_star_failure_is_empty_path_zero_cost:
  "\<not> reachable wall_grid (0, 0) (0, 2) \<and> a_star wall_grid heuristic (0, 0) (0, 2) = Some (Inr ([], 0))"
proof
  show "\<not> reachable wall_grid (0, 0) (0, 2)" using wall_unreachable by fastforce
  show "a_star wall_grid heuristic (0, 0) (0, 2) = Some (Inr ([], 0))"
    by (simp add: eval_search wall_grid_def)
qed


text \<open>
  C2, amended. For every grid, every heuristic, every start inside the grid and every
  goal that no sequence of unit moves into free cells connects to the start,
  \<^verbatim>\<open>a_star\<close> returns the empty path together with the cost 0, and nothing else.
\<close>

theorem a_star_unreachable_empty_path:
  assumes "in_grid g start" and "\<not> reachable g start goal"
  shows "a_star g h start goal = Some (Inr ([], 0))"
proof -
  have "\<not> found (initial_state start)" by (simp add: initial_state_def)
  from a_star_loop_unreachable[OF frontier_ok_initial[OF assms(1)] this assms(2), of h]
  obtain st' where "a_star_loop g h start goal (initial_state start) = Inr st'" "\<not> found st'"
    by blast
  then show ?thesis by (simp add: a_star_def)
qed

theorem a_star_unreachable_empty_path_witness:
  "in_grid row_grid (0, 0) \<and> \<not> reachable row_grid (0, 0) (2, 2)
   \<and> a_star row_grid heuristic (0, 0) (2, 2) = Some (Inr ([], 0))"
proof -
  have a: "in_grid row_grid (0, 0)" by (simp add: in_grid_def row_grid_def)
  have b: "\<not> reachable row_grid (0, 0) (2, 2)" using row_unreachable by fastforce
  show ?thesis using a b a_star_unreachable_empty_path[OF a b, of heuristic] by simp
qed


text \<open>
  C3, as stated, fails. With two obstacles that each fill the whole 2 by 2 grid the
  search from \<open>(0,0)\<close> to \<open>(1,1)\<close> fails. \<^verbatim>\<open>plan_path\<close> stores the empty
  waypoint list and still sends it to the simulator; the state is \<^verbatim>\<open>PLANNING\<close>,
  so the next state update issues the takeoff, and the position update that reports
  the target altitude raises \<^verbatim>\<open>IndexError\<close> in \<^verbatim>\<open>waypoint_transition\<close>.
\<close>

theorem failed_plan_is_sent_and_flown:
  "state_callback blocked_env armed_drone = Some (Inr planned_drone)
   \<and> waypoints planned_drone = []
   \<and> SendWaypoints [] \<in> set (commands planned_drone)
   \<and> state_callback blocked_env planned_drone
        = Some (Inr (airborne_drone\<lparr>local_position := (0, 0, 0)\<rparr>))
   \<and> Takeoff 5 \<in> set (commands airborne_drone)
   \<and> local_position_callback airborne_drone = Inl IndexError"
proof -
  have a: "state_callback blocked_env armed_drone = Some (Inr planned_drone)"
  proof -
    have "in_mission armed_drone" "flight_state armed_drone = ARMING" "armed armed_drone"
      by (simp_all add: armed_drone_def)
    then show ?thesis by (simp add: state_callback_def plan_blocked)
  qed
  have b: "state_callback blocked_env planned_drone
        = Some (Inr (airborne_drone\<lparr>local_position := (0, 0, 0)\<rparr>))"
    by (simp add: state_callback_def planned_drone_def armed_drone_def airborne_drone_def
          takeoff_transition_def)
  have c: "local_position_callback airborne_drone = Inl IndexError"
    by (simp add: local_position_callback_def airborne_drone_def planned_drone_def
          armed_drone_def waypoint_transition_def)
  show ?thesis using a b c
    by (simp add: planned_drone_def airborne_drone_def armed_drone_def)
qed

text \<open>
  C3, amended. Whenever the obstacle file has at least two rows, the grid is built and
  the search returns the empty path, \<^verbatim>\<open>plan_path\<close> stores an empty waypoint
  list, sends that empty list to the simulator and leaves the flight state
  \<^verbatim>\<open>PLANNING\<close>; besides setting the home position it issues no request to the
  vehicle.
\<close>

theorem plan_path_search_failed:
  assumes "2 < length (target_position d)"
    and "2 \<le> length (colliders env)"
    and "create_grid (colliders env) 5 5 = Inr (grid, north_offset, east_offset)"
    and "a_star grid heuristic
           (grid_cell (global_to_local env (global_position d) (global_home d))
              north_offset east_offset)
           (grid_cell (global_to_local env (- 122396362 / 1000000, 37795049 / 1000000, altitude d)
              (global_home d)) north_offset east_offset)
         = Some (Inr ([], path_cost))"
  shows "plan_path env d =
           Some (Inr (d\<lparr>flight_state := PLANNING,
                        target_position := (target_position d)[2 := 5],
                        waypoints := [],
                        commands := commands d @
                          [SetHomePosition (lon0 env) (lat0 env) 0, SendWaypoints []]\<rparr>))"
  using assms
  by (simp add: plan_path_def create_grid_loadtxt_def TARGET_ALTITUDE_def SAFETY_DISTANCE_def
        prune_path_Nil send_waypoints_def Let_def)

theorem plan_path_search_failed_witness:
  "2 < length (target_position armed_drone)
   \<and> 2 \<le> length (colliders blocked_env)
   \<and> create_grid (colliders blocked_env) 5 5 =
       Inr (full_grid, 0, 0)
   \<and> plan_path blocked_env armed_drone =
       Some (Inr (armed_drone\<lparr>flight_state := PLANNING,
                        target_position := [0, 0, 5],
                        waypoints := [],
                        commands := [Arm, TakeControl,
                          SetHomePosition (- 122397450 / 1000000) (37792480 / 1000000) 0,
                          SendWaypoints []]\<rparr>))"
proof -
  have a: "2 < length (target_position armed_drone)" by (simp add: armed_drone_def)
  have r: "2 \<le> length (colliders blocked_env)" by (simp add: blocked_env_def)
  have b: "create_grid (colliders blocked_env) 5 5 = Inr (full_grid, 0, 0)"
    by (simp add: blocked_env_def blocked_grid)
  have c: "a_star full_grid heuristic
           (grid_cell (global_to_local blocked_env (global_position armed_drone) (global_home armed_drone)) 0 0)
           (grid_cell (global_to_local blocked_env (- 122396362 / 1000000, 37795049 / 1000000, altitude armed_drone)
              (global_home armed_drone)) 0 0)
         = Some (Inr ([], 0))"
    by (simp add: blocked_env_def armed_drone_def grid_cell_def py_int_def blocked_search)
  show ?thesis
    using a r b plan_path_search_failed[OF a r b c]
    by (simp add: armed_drone_def blocked_env_def)
qed

text \<open>
  C4. In state \<^verbatim>\<open>DISARMING\<close>, with the vehicle still armed and guided, a state
  update moves the flight state to \<^verbatim>\<open>MANUAL\<close> and stops the mission: the test
  \<^verbatim>\<open>~self.armed & ~self.guided\<close> is the integer -2 there, which counts as true.
\<close>

theorem disarming_while_armed:
  "state_callback idle_env armed_disarming =
     Some (Inr (armed_disarming\<lparr>flight_state := MANUAL, commands := [Disarm, ReleaseControl, Stop],
                                 in_mission := False\<rparr>))"
  by (simp add: state_callback_def armed_disarming_def manual_transition_def)

text \<open>
  C5. On the free 10 by 10 grid with \<open>start = goal = (0,0)\<close> the goal is trivially
  reachable, and \<^verbatim>\<open>a_star\<close> raises \<^verbatim>\<open>KeyError\<close> instead of returning the
  one-cell path with cost 0.
\<close>

theorem a_star_trivial_plan_KeyError:
  "a_star (free_grid 10 10) heuristic (0, 0) (0, 0) = Some (Inl KeyError)"
  by (simp add: a_star_def a_star_loop_goal_first) (simp add: initial_state_def)


text \<open>
  C6. On the path \<open>(0,0), (1,0), (1,1), (0,0), (-1,-1)\<close> the last three points are
  collinear, and \<^verbatim>\<open>remove\<close> deletes the first element equal to \<open>(0,0)\<close>:
  the output starts with \<open>(1,0)\<close>, not with the first element of the input. The
  determinants of the three triples examined are 1, 1 and 0; the evaluation passes the
  exact determinant, and by \<open>prune_path_decided\<close> every routine that decides
  collinearity on these five points gives the same output.
\<close>

theorem prune_path_drops_first:
  "prune_path det3 (Some [(0, 0), (1, 0), (1, 1), (0, 0), (-1, -1)])
     = Inr [(1, 0), (1, 1), (0, 0), (-1, -1)]"
  by (simp add: prune_path_def prune_loop.simps collinearity_check_def det3_def point_def epsilon_def)

text \<open>
  C7, as stated, fails: on the free 2 by 2 grid with start \<open>(1,1)\<close> and goal
  \<open>(0,0)\<close> the first pass enqueues \<open>(1,0)\<close> and then \<open>(0,1)\<close>, both with
  priority 2, and the next \<^verbatim>\<open>get\<close> returns \<open>(0,1)\<close>, the entry enqueued
  later; the returned path runs through \<open>(0,1)\<close>.
\<close>

theorem tie_break_not_insertion_order:
  "(case a_star_iter (free_grid 2 2) heuristic (1, 1) (0, 0) (initial_state (1, 1)) of
      Inl e \<Rightarrow> False
    | Inr (brk, st) \<Rightarrow>
        queue st = [(2, (1, 0)), (2, (0, 1))] \<and> fst (queue_get (queue st)) = (2, (0, 1)))
   \<and> a_star (free_grid 2 2) heuristic (1, 1) (0, 0) = Some (Inr ([(1, 1), (0, 1), (0, 0)], 2))"
  by (simp add: eval_search free_grid_def heuristic_def retrace.simps)


text \<open>
  C7, amended. In \<^verbatim>\<open>a_star\<close>, every pass of the loop dequeues the least entry
  of the frontier in the order on pairs of priority and cell: its priority \<open>g+h\<close> is
  minimal, and among the entries of that priority its cell is the least by north index,
  then by east index, whatever the order of insertion. The cell of that entry decides
  the \<^verbatim>\<open>break\<close>, the entry leaves the queue, and the entries enqueued in that
  pass are neighbours of that cell with priority \<open>g+h\<close>.
\<close>

theorem a_star_iter_dequeues_least:
  assumes "queue st \<noteq> []" and "a_star_iter g h start goal st = Inr (brk, st')"
  shows "\<exists>item rest current_cost.
           least_entry item (queue st)
         \<and> brk = (snd item = goal)
         \<and> queue st' = remove1 item (queue st) @ rest
         \<and> (if snd item = start then current_cost = 0
              else (\<exists>p a. branch st (snd item) = Some (current_cost, p, a)))
         \<and> (\<forall>e \<in> set rest. \<exists>a. snd e = move (snd item) a
                \<and> fst e = current_cost + cost a + h (snd e) goal)"
proof -
  let ?item = "Min (set (queue st))"
  let ?q = "remove1 ?item (queue st)"
  let ?c = "snd ?item"
  have qg: "queue_get (queue st) = (?item, ?q)" by (simp add: queue_get_def Let_def)
  have least: "least_entry ?item (queue st)" using assms(1) by (rule Min_least_entry)
  from assms(2) obtain cc where cc: "(if ?c = start then Inr 0
               else (case branch st ?c of None \<Rightarrow> Inl KeyError | Some entry \<Rightarrow> Inr (fst entry)))
            = (Inr cc :: error + real)"
    by (auto simp: a_star_iter_def qg Let_def split: sum.splits)
  have cost: "if ?c = start then cc = 0 else (\<exists>p a. branch st ?c = Some (cc, p, a))"
    using cc by (auto split: if_splits option.splits)
  show ?thesis
  proof (cases "?c = goal")
    case True
    from assms(2) have "brk" "st' = st\<lparr>queue := ?q, found := True\<rparr>"
      using cc True by (simp_all add: a_star_iter_def qg Let_def)
    then have "brk = (?c = goal)" "queue st' = ?q @ []" using True by simp_all
    with least cost show ?thesis
      by (intro exI[of _ ?item] exI[of _ "[]"] exI[of _ cc]) simp
  next
    case False
    from assms(2) obtain actions where va: "valid_actions g ?c = Inr actions"
      and st': "st' = expand h goal ?c cc actions (st\<lparr>queue := ?q\<rparr>)" and nb: "\<not> brk"
      using cc False by (auto simp: a_star_iter_def qg Let_def split: sum.splits)
    from expand_queue_append[of h goal ?c cc actions "st\<lparr>queue := ?q\<rparr>"] obtain rest where
      r: "queue st' = ?q @ rest"
      and e: "\<forall>e \<in> set rest. \<exists>a. snd e = move ?c a \<and> fst e = cc + cost a + h (snd e) goal"
      unfolding st' by auto
    from least cost nb False r e show ?thesis
      by (intro exI[of _ ?item] exI[of _ rest] exI[of _ cc]) simp
  qed
qed

theorem a_star_iter_dequeues_least_witness:
  "queue tie_state = [(2, (1, 0)), (2, (0, 1))]
   \<and> queue tie_state \<noteq> []
   \<and> a_star_iter (free_grid 2 2) heuristic (1, 1) (0, 0) tie_state = Inr (False, tie_next)
   \<and> queue tie_next = [(2, (1, 0)), (2, (0, 0)), (2 + sqrt 2, (1, 1))]
   \<and> (\<exists>item rest current_cost.
           least_entry item (queue tie_state)
         \<and> False = (snd item = (0, 0))
         \<and> queue tie_next = remove1 item (queue tie_state) @ rest
         \<and> (if snd item = (1, 1) then current_cost = 0
              else (\<exists>p a. branch tie_state (snd item) = Some (current_cost, p, a)))
         \<and> (\<forall>e \<in> set rest. \<exists>a. snd e = move (snd item) a
                \<and> fst e = current_cost + cost a + heuristic (snd e) (0, 0)))"
proof -
  have a: "queue tie_state \<noteq> []" by (simp add: tie_state_queue)
  note b = tie_state_step
  show ?thesis
    by (intro conjI tie_state_queue a b tie_next_queue a_star_iter_dequeues_least[OF a b])
qed


text \<open>
  C8, as stated, fails: on a path that visits \<open>(1,0)\<close> twice the second run of
  \<^verbatim>\<open>prune_path\<close> removes a point the first run kept. The determinants of the
  triples examined are 5 and 0 (two equal rows, or three points of the line of east
  index 0), evaluated with the exact determinant.
\<close>

theorem prune_path_twice:
  "prune_path det3 (Some [(0, 0), (1, 0), (5, 5), (1, 0), (2, 0)]) = Inr [(0, 0), (1, 0), (2, 0)]
   \<and> prune_path det3 (Some [(0, 0), (1, 0), (2, 0)]) = Inr [(0, 0), (2, 0)]"
  by (simp add: prune_path_def prune_loop.simps collinearity_check_def det3_def point_def epsilon_def)

text \<open>
  C8, amended. \<^verbatim>\<open>prune_path\<close> is idempotent on every path of pairwise distinct
  points on which the determinant routine decides collinearity, that is, falls below
  the tolerance exactly on the triples of points of the path whose exact determinant
  is 0: applied to its own output it returns that output.
\<close>

theorem prune_path_idempotent_distinct:
  assumes "distinct p" and "det_decides det (set p)"
  shows "\<exists>q. prune_path det (Some p) = Inr q \<and> prune_path det (Some q) = Inr q"
proof -
  have "\<forall>k. k + 2 < length (prune_loop det p 0) \<longrightarrow> \<not> straight_at det (prune_loop det p 0) k"
    using assms by (intro prune_loop_no_straight) auto
  then have "prune_loop det (prune_loop det p 0) 0 = prune_loop det p 0"
    by (intro prune_loop_fixed) auto
  then show ?thesis by (simp add: prune_path_def)
qed

theorem prune_path_idempotent_distinct_witness:
  "distinct ([(0, 0), (0, 1), (0, 2), (1, 2), (2, 2)] :: cell list) \<and>
   det_decides det3 (set [(0, 0), (0, 1), (0, 2), (1, 2), (2, 2)]) \<and>
   prune_path det3 (Some [(0, 0), (0, 1), (0, 2), (1, 2), (2, 2)]) = Inr [(0, 0), (0, 2), (2, 2)] \<and>
   prune_path det3 (Some [(0, 0), (0, 2), (2, 2)]) = Inr [(0, 0), (0, 2), (2, 2)]"
proof -
  have a: "distinct ([(0, 0), (0, 1), (0, 2), (1, 2), (2, 2)] :: cell list)" by simp
  have b: "det_decides det3 (set [(0, 0), (0, 1), (0, 2), (1, 2), (2, 2)])"
    by (rule det3_decides)
  have c: "prune_path det3 (Some [(0, 0), (0, 1), (0, 2), (1, 2), (2, 2)])
             = Inr [(0, 0), (0, 2), (2, 2)]"
    by (simp add: prune_path_def prune_loop.simps collinearity_check_def det3_def point_def
          epsilon_def)
  from prune_path_idempotent_distinct[OF a b] c
  have "prune_path det3 (Some [(0, 0), (0, 2), (2, 2)]) = Inr [(0, 0), (0, 2), (2, 2)]"
    by auto
  with a b c show ?thesis by blast
qed

text \<open>
  C9. With \<open>start = goal\<close> the first pass of the loop pops the goal and marks it
  found while \<^verbatim>\<open>branch\<close> is still empty, and the reconstruction raises
  \<^verbatim>\<open>KeyError\<close> at \<^verbatim>\<open>branch[n][0]\<close>; this holds on every grid and for every
  heuristic.
\<close>

theorem a_star_start_is_goal:
  "(\<exists>st. a_star_loop g h start start (initial_state start) = Inr st \<and> found st \<and> branch st = Map.empty)
   \<and> a_star g h start start = Some (Inl KeyError)"
  by (simp add: a_star_def a_star_loop_goal_first) (simp add: initial_state_def)


text \<open>
  C10. Called with \<^verbatim>\<open>None\<close>, \<^verbatim>\<open>prune_path\<close> skips the pruning block and then
  raises the unbound-local error instead of returning a value; on every list it returns
  a list, whatever the determinant routine computes.
\<close>

theorem prune_path_None_unbound:
  "prune_path det None = Inl UnboundLocalError \<and> (\<forall>p. \<exists>r. prune_path det (Some p) = Inr r)"
  by (simp add: prune_path_def)

end
